theory Spec2Isabelle
  imports Complex_Main "HOL-Library.Sublist"
begin

section \<open>Strings as Python sees them\<close>

text \<open>
  The script \<^verbatim>\<open>lammps_log_plot.py\<close> reads a LAMMPS log with \<^verbatim>\<open>readlines\<close>, strips every
  line, splits it on whitespace and converts tokens with \<^verbatim>\<open>float\<close>. A \<^typ>\<open>char\<close> stands
  for a code point below 256; \<open>isspace\<close> is Python's \<^verbatim>\<open>str.isspace\<close> on those code
  points (tab, line feed, vertical tab, form feed, carriage return, the four
  separators 28 to 31, space, NEL and the no-break space).
\<close>

definition isspace :: "char \<Rightarrow> bool" where
  "isspace c = (c \<in> set [CHR 0x09, CHR 0x0A, CHR 0x0B, CHR 0x0C, CHR 0x0D,
                            CHR 0x1C, CHR 0x1D, CHR 0x1E, CHR 0x1F, CHR 0x20,
                            CHR 0x85, CHR 0xA0])"

text \<open>\<^verbatim>\<open>s.strip()\<close>: whitespace removed at both ends.\<close>

definition str_strip :: "string \<Rightarrow> string" where
  "str_strip s = rev (dropWhile isspace (rev (dropWhile isspace s)))"

text \<open>
  \<^verbatim>\<open>s.split()\<close>: the maximal runs of non-whitespace characters, in order; \<open>cur\<close> is
  the token being read.
\<close>

fun split_acc :: "string \<Rightarrow> string \<Rightarrow> string list" where
  "split_acc [] cur = (if cur = [] then [] else [cur])"
| "split_acc (c # cs) cur =
     (if isspace c then (if cur = [] then split_acc cs [] else cur # split_acc cs [])
      else split_acc cs (cur @ [c]))"

definition str_split :: "string \<Rightarrow> string list" where
  "str_split s = split_acc s []"

text \<open>\<^verbatim>\<open>s.startswith(p)\<close>.\<close>

definition startswith :: "string \<Rightarrow> string \<Rightarrow> bool" where
  "startswith s p = (take (length p) s = p)"

text \<open>
  \<^verbatim>\<open>open(path, "r").readlines()\<close> on the decoded content of the file: text mode
  turns \<^verbatim>\<open>\r\n\<close> and a lone \<^verbatim>\<open>\r\<close> into \<^verbatim>\<open>\n\<close>, and every line keeps its
  terminator.
\<close>

fun universal_newlines :: "string \<Rightarrow> string" where
  "universal_newlines [] = []"
| "universal_newlines [c] = (if c = CHR 0x0D then [CHR 0x0A] else [c])"
| "universal_newlines (c # d # cs) =
     (if c = CHR 0x0D then
        (if d = CHR 0x0A then CHR 0x0A # universal_newlines cs
         else CHR 0x0A # universal_newlines (d # cs))
      else c # universal_newlines (d # cs))"

fun lines_acc :: "string \<Rightarrow> string \<Rightarrow> string list" where
  "lines_acc [] cur = (if cur = [] then [] else [cur])"
| "lines_acc (c # cs) cur =
     (if c = CHR 0x0A then (cur @ [c]) # lines_acc cs [] else lines_acc cs (cur @ [c]))"

definition readlines :: "string \<Rightarrow> string list" where
  "readlines text = lines_acc (universal_newlines text) []"

section \<open>The segmenter: \<^verbatim>\<open>parse_lammps_log\<close>\<close>

text \<open>
  A run is the \<^verbatim>\<open>DataFrame\<close> built from one thermo block: the header's names and the
  rows of converted values. The conversion \<^verbatim>\<open>float\<close> is a parameter \<open>to_float\<close> of the
  model, \<open>None\<close> standing for \<^verbatim>\<open>ValueError\<close>, so that every statement about the
  segmenter holds for whatever strings Python accepts as numbers.
\<close>

datatype error = ValueError | IndexError

record 'f run =
  columns :: "string list"
  rows :: "'f list list"

text \<open>\<^verbatim>\<open>[float(p) for p in parts]\<close>: the first failing token raises.\<close>

fun floats :: "(string \<Rightarrow> 'f option) \<Rightarrow> string list \<Rightarrow> 'f list option" where
  "floats to_float [] = Some []"
| "floats to_float (p # ps) =
     (case to_float p of
        None \<Rightarrow> None
      | Some v \<Rightarrow> (case floats to_float ps of None \<Rightarrow> None | Some vs \<Rightarrow> Some (v # vs)))"

text \<open>
  The inner \<^verbatim>\<open>while i < n\<close> loop (source lines 60 to 84), from cursor \<open>i\<close> with the
  rows collected so far; it returns the cursor and the rows at the \<^verbatim>\<open>break\<close>, or the
  exception that left the loop.
\<close>

function inner_loop ::
  "(string \<Rightarrow> 'f option) \<Rightarrow> string list \<Rightarrow> string list \<Rightarrow> nat \<Rightarrow> 'f list list
     \<Rightarrow> error + nat \<times> 'f list list" where
  "inner_loop to_float lines headers i data =
     (if i < length lines then
        (let line = str_strip (lines ! i) in
         if line = [] then Inr (i, data)
         else
           (let parts = str_split line in
            case parts of
              [] \<Rightarrow> Inl IndexError
            | p # _ \<Rightarrow>
                (case to_float p of
                   None \<Rightarrow> Inr (i, data)
                 | Some _ \<Rightarrow>
                     if length parts \<noteq> length headers then Inr (i, data)
                     else
                       (case floats to_float parts of
                          None \<Rightarrow> Inl ValueError
                        | Some row \<Rightarrow> inner_loop to_float lines headers (i + 1) (data @ [row])))))
      else Inr (i, data))"
  by pat_completeness auto
termination
  by (relation "measure (\<lambda>(to_float, lines, headers, i, data). length lines - i)") auto

declare inner_loop.simps [simp del]

text \<open>
  One iteration of the outer \<^verbatim>\<open>while i < n\<close> loop (source lines 52 to 90), for
  \<open>i < length lines\<close>: the new cursor and the runs so far.
\<close>

definition outer_step ::
  "(string \<Rightarrow> 'f option) \<Rightarrow> string list \<Rightarrow> nat \<Rightarrow> 'f run list
     \<Rightarrow> error + nat \<times> 'f run list" where
  "outer_step to_float lines i runs =
     (let line = str_strip (lines ! i) in
      if startswith line ''Step'' then
        (let headers = str_split line in
         case inner_loop to_float lines headers (i + 1) [] of
           Inl e \<Rightarrow> Inl e
         | Inr (i', data) \<Rightarrow>
             if data \<noteq> [] then Inr (i', runs @ [\<lparr>columns = headers, rows = data\<rparr>])
             else Inr (i', runs))
      else Inr (i + 1, runs))"

lemma inner_loop_cursor:
  "inner_loop to_float lines headers i data = Inr (i', data') \<Longrightarrow>
     i \<le> i' \<and> (i' \<le> length lines \<or> i' = i)"
proof (induction to_float lines headers i data rule: inner_loop.induct)
  case (1 to_float lines headers i data)
  show ?case
  proof (cases "i < length lines")
    case False
    with "1.prems" show ?thesis by (simp add: inner_loop.simps)
  next
    case lt: True
    from "1.prems" "1.IH" lt show ?thesis
      apply (subst (asm) inner_loop.simps)
      apply (simp add: Let_def split: list.splits option.splits if_splits)
      apply fastforce
      done
  qed
qed

lemma outer_step_cursor:
  "i < length lines \<Longrightarrow> outer_step to_float lines i runs = Inr (i', runs') \<Longrightarrow>
     i < i' \<and> i' \<le> length lines"
  by (auto simp: outer_step_def Let_def split: if_splits sum.splits prod.splits
           dest!: inner_loop_cursor)

text \<open>The outer loop, from cursor \<open>i\<close> with the runs emitted so far.\<close>

function parse_loop ::
  "(string \<Rightarrow> 'f option) \<Rightarrow> string list \<Rightarrow> nat \<Rightarrow> 'f run list \<Rightarrow> error + 'f run list" where
  "parse_loop to_float lines i runs =
     (if i < length lines then
        (case outer_step to_float lines i runs of
           Inl e \<Rightarrow> Inl e
         | Inr (i', runs') \<Rightarrow> parse_loop to_float lines i' runs')
      else Inr runs)"
  by pat_completeness auto
termination
proof (relation "measure (\<lambda>(to_float, lines, i, runs). length lines - i)")
  show "wf (measure (\<lambda>(to_float, lines, i, runs). length lines - i))"
    by simp
next
  fix to_float :: "string \<Rightarrow> 'f option" and lines :: "string list" and i :: nat
    and runs :: "'f run list" and x2 :: "nat \<times> 'f run list" and i' :: nat
    and runs' :: "'f run list"
  assume "i < length lines" "outer_step to_float lines i runs = Inr x2" "(i', runs') = x2"
  then have "i < i' \<and> i' \<le> length lines"
    using outer_step_cursor [of i lines to_float runs i' runs'] by simp
  then show "((to_float, lines, i', runs'), (to_float, lines, i, runs))
        \<in> measure (\<lambda>(to_float, lines, i, runs). length lines - i)"
    by auto
qed

declare parse_loop.simps [simp del]

definition parse_lines :: "(string \<Rightarrow> 'f option) \<Rightarrow> string list \<Rightarrow> error + 'f run list" where
  "parse_lines to_float lines = parse_loop to_float lines 0 []"

definition parse_lammps_log :: "(string \<Rightarrow> 'f option) \<Rightarrow> string \<Rightarrow> error + 'f run list" where
  "parse_lammps_log to_float text = parse_lines to_float (readlines text)"


section \<open>The query engine: \<^verbatim>\<open>main\<close>\<close>

text \<open>
  The values of a \<^verbatim>\<open>DataFrame\<close> are taken as exact numbers (\<^typ>\<open>real\<close>): comparison,
  sum and division are the mathematical ones, without the rounding, the infinities
  and the NaN of IEEE doubles. The parsed command line is a record; \<open>None\<close> is an option
  that was not given (\<^verbatim>\<open>nargs="+"\<close> never yields an empty list, but \<^verbatim>\<open>main\<close> tests for
  one).
\<close>

record args =
  arg_run :: int
  arg_x :: string
  arg_y :: "string list option"
  arg_list :: bool
  arg_x_min :: "real option"
  arg_x_max :: "real option"
  arg_avg_cols :: "string list option"

text \<open>
  What \<^verbatim>\<open>main\<close> prints or shows, one constructor per message, with the values the
  message is formatted from; the plot is the x label and series, the labelled y
  series and whether the title carries the filter marker.
\<close>

datatype effect =
    NoRunsFound
  | Listing "(nat \<times> nat \<times> string list) list"
  | OutOfRange int nat
  | UnknownXColumn string "string list"
  | EmptyResult
  | NothingRequested
  | UnknownYColumns "string list" "string list"
  | UnknownAvgColumns "string list" "string list"
  | Averages real real "(string \<times> real) list"
  | Plot string "real list" "(string \<times> real list) list" bool

text \<open>
  \<^verbatim>\<open>df[col]\<close> for a frame whose column names are distinct: the values at the name's
  position, row by row. Where a name occurs twice in a header, \<^verbatim>\<open>df[col]\<close> is a frame
  and not a series, and the program raises: \<^verbatim>\<open>ValueError\<close> from the masks of lines 177
  and 179, \<^verbatim>\<open>TypeError\<close> from the format of line 218. The functions below read the
  first position of the name and so are the program's on frames with distinct names
  only; every statement on the query engine is about such frames.
\<close>

definition col_index :: "string list \<Rightarrow> string \<Rightarrow> nat" where
  "col_index cols c = length (takeWhile (\<lambda>d. d \<noteq> c) cols)"

definition column :: "real run \<Rightarrow> string \<Rightarrow> real list" where
  "column df c = map (\<lambda>row. row ! col_index (columns df) c) (rows df)"

text \<open>\<^verbatim>\<open>df[df[c] >= a]\<close> and \<^verbatim>\<open>df[df[c] <= b]\<close>: the boolean mask keeps the row order.\<close>

definition select_ge :: "real run \<Rightarrow> string \<Rightarrow> real \<Rightarrow> real run" where
  "select_ge df c a = df\<lparr>rows := filter (\<lambda>row. row ! col_index (columns df) c \<ge> a) (rows df)\<rparr>"

definition select_le :: "real run \<Rightarrow> string \<Rightarrow> real \<Rightarrow> real run" where
  "select_le df c b = df\<lparr>rows := filter (\<lambda>row. row ! col_index (columns df) c \<le> b) (rows df)\<rparr>"

text \<open>Source lines 175 to 179: the filtered view \<^verbatim>\<open>df_sel\<close>.\<close>

definition x_filter :: "real run \<Rightarrow> args \<Rightarrow> real run" where
  "x_filter df a =
     (let df_sel = df;
          df_sel = (case arg_x_min a of None \<Rightarrow> df_sel | Some lo \<Rightarrow> select_ge df_sel (arg_x a) lo);
          df_sel = (case arg_x_max a of None \<Rightarrow> df_sel | Some hi \<Rightarrow> select_le df_sel (arg_x a) hi)
      in df_sel)"

text \<open>\<^verbatim>\<open>df.empty\<close>: some axis has length 0.\<close>

definition df_empty :: "real run \<Rightarrow> bool" where
  "df_empty df = (rows df = [] \<or> columns df = [])"

text \<open>
  \<^verbatim>\<open>Series.mean()\<close>, \<^verbatim>\<open>Series.min()\<close> and \<^verbatim>\<open>Series.max()\<close> of a series with a value,
  in exact arithmetic. The program's mean is computed in 64-bit floating point: it
  rounds, overflows to infinity and leaves NaN values out, so \<open>mean\<close> is the program's
  only where the sum and the quotient are exact, as they are in the example of the
  specification.
\<close>

definition mean :: "real list \<Rightarrow> real" where
  "mean vs = sum_list vs / real (length vs)"

definition series_min :: "real list \<Rightarrow> real" where
  "series_min vs = fold min (tl vs) (hd vs)"

definition series_max :: "real list \<Rightarrow> real" where
  "series_max vs = fold max (tl vs) (hd vs)"

text \<open>The truth value Python gives an optional list: given and not empty.\<close>

definition truthy :: "'a list option \<Rightarrow> bool" where
  "truthy v = (case v of None \<Rightarrow> False | Some xs \<Rightarrow> xs \<noteq> [])"

definition given :: "'a list option \<Rightarrow> 'a list" where
  "given v = (case v of None \<Rightarrow> [] | Some xs \<Rightarrow> xs)"

text \<open>Source lines 147 to 152: one entry per run, numbered from 1.\<close>

definition listing :: "real run list \<Rightarrow> effect" where
  "listing runs =
     Listing (map (\<lambda>(idx, df). (idx, length (rows df), columns df))
                  (zip [1 ..< length runs + 1] runs))"

text \<open>Source lines 210 to 218: the effective range and the mean of every column.\<close>

definition averages :: "real run \<Rightarrow> args \<Rightarrow> effect" where
  "averages df_sel a =
     Averages
       (case arg_x_min a of Some lo \<Rightarrow> lo | None \<Rightarrow> series_min (column df_sel (arg_x a)))
       (case arg_x_max a of Some hi \<Rightarrow> hi | None \<Rightarrow> series_max (column df_sel (arg_x a)))
       (map (\<lambda>col. (col, mean (column df_sel col))) (given (arg_avg_cols a)))"

text \<open>Source lines 222 to 238: one series per y column against the x column.\<close>

definition plot :: "real run \<Rightarrow> args \<Rightarrow> effect" where
  "plot df_sel a =
     Plot (arg_x a) (column df_sel (arg_x a))
          (map (\<lambda>col. (col, column df_sel col)) (given (arg_y a)))
          (arg_x_min a \<noteq> None \<or> arg_x_max a \<noteq> None)"

text \<open>
  Source lines 193 to 238, for the selected run \<open>df\<close> and its filtered view: the
  check of the y columns returns, the check of the averaging columns prints and
  goes on to the plot.
\<close>

definition report :: "real run \<Rightarrow> real run \<Rightarrow> args \<Rightarrow> effect list" where
  "report df df_sel a =
     (let missing_y = filter (\<lambda>col. col \<notin> set (columns df)) (given (arg_y a)) in
      if truthy (arg_y a) \<and> missing_y \<noteq> [] then [UnknownYColumns missing_y (columns df)]
      else
        (if truthy (arg_avg_cols a) then
           (let missing_avg = filter (\<lambda>col. col \<notin> set (columns df)) (given (arg_avg_cols a)) in
            if missing_avg \<noteq> [] then [UnknownAvgColumns missing_avg (columns df)]
            else [averages df_sel a])
         else []) @
        (if truthy (arg_y a) then [plot df_sel a] else []))"

text \<open>Source lines 141 to 238: \<^verbatim>\<open>main\<close> once the log is parsed.\<close>

definition run_query :: "real run list \<Rightarrow> args \<Rightarrow> effect list" where
  "run_query runs a =
     (if runs = [] then [NoRunsFound]
      else
        (let out = (if arg_list a then [listing runs] else []) in
         if arg_list a \<and> arg_y a = None \<and> arg_avg_cols a = None then out
         else if arg_run a < 1 \<or> arg_run a > int (length runs) then
           out @ [OutOfRange (arg_run a) (length runs)]
         else
           (let df = runs ! nat (arg_run a - 1) in
            if arg_x a \<notin> set (columns df) then out @ [UnknownXColumn (arg_x a) (columns df)]
            else
              (let df_sel = x_filter df a in
               if df_empty df_sel then out @ [EmptyResult]
               else if (arg_y a = None \<or> arg_y a = Some []) \<and> \<not> truthy (arg_avg_cols a) then
                 out @ [NothingRequested]
               else out @ report df df_sel a))))"

text \<open>\<^verbatim>\<open>main\<close>: an exception of the parser is not caught.\<close>

definition main :: "(string \<Rightarrow> real option) \<Rightarrow> string \<Rightarrow> args \<Rightarrow> error + effect list" where
  "main to_float text a =
     (case parse_lammps_log to_float text of
        Inl e \<Rightarrow> Inl e
      | Inr runs \<Rightarrow> Inr (run_query runs a))"

section \<open>A conversion for the examples\<close>

text \<open>
  \<open>dec_float\<close> is \<^verbatim>\<open>float\<close> on plain decimal literals: an optional sign, digits and
  at most one point with a digit on either side of it. It rejects everything else
  (Python also reads exponents, \<^verbatim>\<open>inf\<close>, \<^verbatim>\<open>nan\<close> and underscores between digits), and
  is used only where a statement is run on a concrete log.
\<close>

definition is_digit :: "char \<Rightarrow> bool" where
  "is_digit c = (c \<in> set ''0123456789'')"

definition digit_val :: "char \<Rightarrow> nat" where
  "digit_val c = of_char c - 48"

definition digits_val :: "string \<Rightarrow> nat" where
  "digits_val s = foldl (\<lambda>n c. 10 * n + digit_val c) 0 s"

definition dec_float :: "string \<Rightarrow> real option" where
  "dec_float s =
     (let neg = (s \<noteq> [] \<and> hd s = CHR ''-'');
          body = (if s \<noteq> [] \<and> (hd s = CHR ''-'' \<or> hd s = CHR ''+'') then tl s else s);
          ip = takeWhile (\<lambda>c. c \<noteq> CHR ''.'') body;
          fp = drop 1 (dropWhile (\<lambda>c. c \<noteq> CHR ''.'') body)
      in if ip @ fp = [] \<or> \<not> list_all is_digit (ip @ fp) then None
         else Some ((if neg then - 1 else 1) * real (digits_val (ip @ fp)) / 10 ^ length fp))"

section \<open>The conditions of the segmenter, named\<close>

text \<open>
  The tests the two loops make on a line: it is blank once stripped; its tokens; its
  first token converts; it passes the three checks that let the inner loop take it as
  a row under the given header; it starts the way a header does.
\<close>

definition blank :: "string \<Rightarrow> bool" where
  "blank l = (str_strip l = [])"

definition tokens :: "string \<Rightarrow> string list" where
  "tokens l = str_split (str_strip l)"

definition numeric_first :: "(string \<Rightarrow> 'f option) \<Rightarrow> string \<Rightarrow> bool" where
  "numeric_first to_float l = (case tokens l of [] \<Rightarrow> False | p # _ \<Rightarrow> to_float p \<noteq> None)"

definition accepted :: "(string \<Rightarrow> 'f option) \<Rightarrow> string list \<Rightarrow> string \<Rightarrow> bool" where
  "accepted to_float headers l =
     (\<not> blank l \<and> numeric_first to_float l \<and> length (tokens l) = length headers)"

definition is_header :: "string \<Rightarrow> bool" where
  "is_header l = startswith (str_strip l) ''Step''"

text \<open>A line that no block takes as a row, whatever its header.\<close>

definition never_row :: "(string \<Rightarrow> 'f option) \<Rightarrow> string \<Rightarrow> bool" where
  "never_row to_float l = (blank l \<or> \<not> numeric_first to_float l)"

text \<open>
  A run that the segmenter can have emitted from these lines: the tokens of a header
  line as columns, at least one row, every row as long as the header.
\<close>

definition emitted_from :: "(string \<Rightarrow> 'f option) \<Rightarrow> string list \<Rightarrow> 'f run \<Rightarrow> bool" where
  "emitted_from to_float lines r =
     (\<exists>l\<in>set lines. is_header l \<and> columns r = tokens l \<and> rows r \<noteq> [] \<and>
        (\<forall>row\<in>set (rows r). length row = length (columns r)))"

text \<open>
  The outer loop with a budget of \<open>k\<close> iterations: \<open>None\<close> when the budget runs out
  before the cursor reaches the end of the lines.
\<close>

fun scan_fuel ::
  "nat \<Rightarrow> (string \<Rightarrow> 'f option) \<Rightarrow> string list \<Rightarrow> nat \<Rightarrow> 'f run list
     \<Rightarrow> (error + 'f run list) option" where
  "scan_fuel 0 to_float lines i runs = (if i < length lines then None else Some (Inr runs))"
| "scan_fuel (Suc k) to_float lines i runs =
     (if i < length lines then
        (case outer_step to_float lines i runs of
           Inl e \<Rightarrow> Some (Inl e)
         | Inr (i', runs') \<Rightarrow> scan_fuel k to_float lines i' runs')
      else Some (Inr runs))"

text \<open>
  The path of \<^verbatim>\<open>main\<close> up to the selected run (source lines 141 to 166): there are
  runs, the listing-only exit is not taken and the run index is in range; the run
  selected; what the listing has printed by then; the requested columns that the run
  does not have; whether an effect is the averages.
\<close>

definition selected :: "real run list \<Rightarrow> args \<Rightarrow> bool" where
  "selected runs a =
     (runs \<noteq> [] \<and> \<not> (arg_list a \<and> arg_y a = None \<and> arg_avg_cols a = None) \<and>
      1 \<le> arg_run a \<and> arg_run a \<le> int (length runs))"

definition the_run :: "real run list \<Rightarrow> args \<Rightarrow> real run" where
  "the_run runs a = runs ! nat (arg_run a - 1)"

definition listed :: "real run list \<Rightarrow> args \<Rightarrow> effect list" where
  "listed runs a = (if arg_list a then [listing runs] else [])"

definition missing :: "real run \<Rightarrow> string list option \<Rightarrow> string list" where
  "missing df cols = filter (\<lambda>col. col \<notin> set (columns df)) (given cols)"

definition is_averages :: "effect \<Rightarrow> bool" where
  "is_averages e = (case e of Averages lo hi avs \<Rightarrow> True | _ \<Rightarrow> False)"

text \<open>
  The end-to-end example of the specification: two blocks and a blank line between;
  the runs it holds; the query of the example, averaging \<^verbatim>\<open>Temp\<close> over steps 0 to 100;
  and a query that filters on the column \<^verbatim>\<open>Temp\<close>.
\<close>

definition example_log :: string where
  "example_log =
     ''Step Temp Press\<newline>0 300.0 1.0\<newline>100 301.5 1.1\<newline>200 299.8 0.9\<newline>\<newline>Step Temp Press\<newline>0 310.0 2.0\<newline>100 311.0 2.1\<newline>''"

definition example_runs :: "real run list" where
  "example_runs =
     [\<lparr>columns = [''Step'', ''Temp'', ''Press''],
        rows = [[0, 300, 1], [100, 301.5, 1.1], [200, 299.8, 0.9]]\<rparr>,
      \<lparr>columns = [''Step'', ''Temp'', ''Press''],
        rows = [[0, 310, 2], [100, 311, 2.1]]\<rparr>]"

definition example_args :: args where
  "example_args =
     \<lparr>arg_run = 1, arg_x = ''Step'', arg_y = None, arg_list = False,
      arg_x_min = Some 0, arg_x_max = Some 100, arg_avg_cols = Some [''Temp'']\<rparr>"

definition temp_args :: args where
  "temp_args =
     \<lparr>arg_run = 1, arg_x = ''Temp'', arg_y = None, arg_list = False,
      arg_x_min = Some 300, arg_x_max = Some 305, arg_avg_cols = Some [''Press'']\<rparr>"

text \<open>The equations that run the model on a concrete log and a concrete query.\<close>

lemmas run_simps =
  parse_lammps_log_def readlines_def parse_lines_def parse_loop.simps outer_step_def
  inner_loop.simps Let_def str_strip_def str_split_def isspace_def startswith_def
  dec_float_def is_digit_def digits_val_def digit_val_def
  blank_def tokens_def numeric_first_def accepted_def is_header_def never_row_def

lemmas query_simps =
  run_query_def x_filter_def select_ge_def select_le_def col_index_def df_empty_def
  truthy_def given_def report_def averages_def plot_def listing_def mean_def column_def
  series_min_def series_max_def selected_def the_run_def listed_def missing_def
  is_averages_def example_runs_def example_args_def temp_args_def

section \<open>Lemmas on strings and on the two loops\<close>

lemma split_acc_Nil_iff: "split_acc s cur = [] \<longleftrightarrow> cur = [] \<and> (\<forall>c\<in>set s. isspace c)"
  by (induction s arbitrary: cur) auto

lemma str_strip_has_nonspace:
  assumes "str_strip s \<noteq> []"
  shows "\<exists>c\<in>set (str_strip s). \<not> isspace c"
proof -
  let ?t = "dropWhile isspace (rev (dropWhile isspace s))"
  from assms have ne: "?t \<noteq> []" by (simp add: str_strip_def)
  then have "\<not> isspace (hd ?t)" by (rule hd_dropWhile)
  moreover from ne have "hd ?t \<in> set ?t" by simp
  ultimately show ?thesis by (auto simp: str_strip_def)
qed

lemma tokens_nonempty: "\<not> blank l \<Longrightarrow> tokens l \<noteq> []"
  using str_strip_has_nonspace [of l]
  by (auto simp: blank_def tokens_def str_split_def split_acc_Nil_iff)

lemma floats_length: "floats to_float ps = Some vs \<Longrightarrow> length vs = length ps"
  by (induction ps arbitrary: vs) (auto split: option.splits)

lemma floats_map: "floats to_float ps = Some vs \<longleftrightarrow> map to_float ps = map Some vs"
proof (induction ps arbitrary: vs)
  case Nil
  show ?case by auto
next
  case (Cons p ps)
  show ?case
  proof (cases vs)
    case Nil
    then show ?thesis by (auto split: option.splits)
  next
    case (Cons v vs')
    with Cons.IH [of vs'] show ?thesis
      by (cases "to_float p"; cases "floats to_float ps") auto
  qed
qed

lemma inner_loop_unfold:
  "inner_loop to_float lines headers i data =
     (if i < length lines \<and> accepted to_float headers (lines ! i) then
        (case floats to_float (tokens (lines ! i)) of
           None \<Rightarrow> Inl ValueError
         | Some row \<Rightarrow> inner_loop to_float lines headers (i + 1) (data @ [row]))
      else Inr (i, data))"
  using tokens_nonempty [of "lines ! i"]
  by (subst inner_loop.simps)
     (auto simp: Let_def accepted_def numeric_first_def blank_def tokens_def
           split: list.splits option.splits)

lemma never_row_not_accepted: "never_row to_float l \<Longrightarrow> \<not> accepted to_float headers l"
  by (auto simp: never_row_def accepted_def)

lemma inner_loop_rows:
  "list_all2 (\<lambda>d row. accepted to_float headers d \<and> floats to_float (tokens d) = Some row) ds rws \<Longrightarrow>
   inner_loop to_float (pre @ ds @ rest) headers (length pre) data =
   inner_loop to_float (pre @ ds @ rest) headers (length pre + length ds) (data @ rws)"
proof (induction ds rws arbitrary: pre data rule: list_all2_induct)
  case Nil
  show ?case by simp
next
  case (Cons d ds row rws)
  have "inner_loop to_float (pre @ (d # ds) @ rest) headers (length pre) data =
        inner_loop to_float (pre @ (d # ds) @ rest) headers (length pre + 1) (data @ [row])"
    using Cons.hyps(1) by (subst inner_loop_unfold) simp
  also have "\<dots> = inner_loop to_float ((pre @ [d]) @ ds @ rest) headers (length (pre @ [d])) (data @ [row])"
    by simp
  also have "\<dots> = inner_loop to_float ((pre @ [d]) @ ds @ rest) headers
                     (length (pre @ [d]) + length ds) ((data @ [row]) @ rws)"
    by (rule Cons.IH)
  finally show ?case by simp
qed

lemma inner_loop_prefix:
  "never_row to_float h \<Longrightarrow> i \<le> length pre \<Longrightarrow>
   inner_loop to_float (pre @ h # rest) headers i data = inner_loop to_float pre headers i data"
proof (induction to_float pre headers i data rule: inner_loop.induct)
  case (1 to_float pre headers i data)
  show ?case
  proof (cases "i < length pre")
    case False
    with "1.prems" have "i = length pre" by simp
    then show ?thesis
      using never_row_not_accepted [OF "1.prems"(1), of headers]
      by (subst inner_loop_unfold, subst (2) inner_loop_unfold) simp
  next
    case lt: True
    show ?thesis
    proof (cases "accepted to_float headers (pre ! i)")
      case False
      with lt show ?thesis
        by (subst inner_loop_unfold, subst (2) inner_loop_unfold) (simp add: nth_append)
    next
      case acc: True
      show ?thesis
      proof (cases "floats to_float (tokens (pre ! i))")
        case None
        with lt acc show ?thesis
          by (subst inner_loop_unfold, subst (2) inner_loop_unfold) (simp add: nth_append)
      next
        case (Some row)
        have ne: "str_strip (pre ! i) \<noteq> []"
          using acc by (simp add: accepted_def blank_def)
        obtain p ps where ps: "str_split (str_strip (pre ! i)) = p # ps"
          using tokens_nonempty [of "pre ! i"] acc
          by (cases "str_split (str_strip (pre ! i))") (auto simp: accepted_def tokens_def)
        obtain v where v: "to_float p = Some v"
          using acc ps by (auto simp: accepted_def numeric_first_def tokens_def)
        have len: "\<not> length (str_split (str_strip (pre ! i))) \<noteq> length headers"
          using acc by (simp add: accepted_def tokens_def)
        have fl: "floats to_float (str_split (str_strip (pre ! i))) = Some row"
          using Some by (simp add: tokens_def)
        have "inner_loop to_float (pre @ h # rest) headers (i + 1) (data @ [row]) =
              inner_loop to_float pre headers (i + 1) (data @ [row])"
          using "1.IH" [OF lt refl ne refl ps v len fl "1.prems"(1)] lt by simp
        with lt acc Some show ?thesis
          by (subst inner_loop_unfold, subst (2) inner_loop_unfold) (simp add: nth_append)
      qed
    qed
  qed
qed

lemma inner_loop_shift:
  "inner_loop to_float (pre @ post) headers (length pre + j) data =
   map_sum id (\<lambda>(i', d). (length pre + i', d)) (inner_loop to_float post headers j data)"
proof (induction to_float post headers j data rule: inner_loop.induct)
  case (1 to_float post headers j data)
  show ?case
  proof (cases "j < length post \<and> accepted to_float headers (post ! j)")
    case False
    then show ?thesis
      by (subst inner_loop_unfold, subst (2) inner_loop_unfold) (auto simp: nth_append)
  next
    case True
    then have lt: "j < length post" and acc: "accepted to_float headers (post ! j)" by auto
    show ?thesis
    proof (cases "floats to_float (tokens (post ! j))")
      case None
      with lt acc show ?thesis
        by (subst inner_loop_unfold, subst (2) inner_loop_unfold) (simp add: nth_append)
    next
      case (Some row)
      have ne: "str_strip (post ! j) \<noteq> []"
        using acc by (simp add: accepted_def blank_def)
      obtain p ps where ps: "str_split (str_strip (post ! j)) = p # ps"
        using tokens_nonempty [of "post ! j"] acc
        by (cases "str_split (str_strip (post ! j))") (auto simp: accepted_def tokens_def)
      obtain v where v: "to_float p = Some v"
        using acc ps by (auto simp: accepted_def numeric_first_def tokens_def)
      have len: "\<not> length (str_split (str_strip (post ! j))) \<noteq> length headers"
        using acc by (simp add: accepted_def tokens_def)
      have fl: "floats to_float (str_split (str_strip (post ! j))) = Some row"
        using Some by (simp add: tokens_def)
      have "inner_loop to_float (pre @ post) headers (length pre + (j + 1)) (data @ [row]) =
            map_sum id (\<lambda>(i', d). (length pre + i', d))
              (inner_loop to_float post headers (j + 1) (data @ [row]))"
        using "1.IH" [OF lt refl ne refl ps v len fl] .
      with lt acc Some show ?thesis
        by (subst inner_loop_unfold, subst (2) inner_loop_unfold) (simp add: nth_append)
    qed
  qed
qed

lemma parse_loop_step:
  "i < length lines \<Longrightarrow>
   parse_loop to_float lines i runs =
     (case outer_step to_float lines i runs of
        Inl e \<Rightarrow> Inl e
      | Inr (i', runs') \<Rightarrow> parse_loop to_float lines i' runs')"
  by (subst parse_loop.simps) simp

lemma parse_loop_done: "\<not> i < length lines \<Longrightarrow> parse_loop to_float lines i runs = Inr runs"
  by (subst parse_loop.simps) simp

lemma parse_loop_induct [case_names step]:
  assumes "\<And>i runs. (\<And>i' runs'. i < length lines \<Longrightarrow>
                outer_step to_float lines i runs = Inr (i', runs') \<Longrightarrow> P i' runs') \<Longrightarrow> P i runs"
  shows "P i runs"
proof (induction "length lines - i" arbitrary: i runs rule: less_induct)
  case (less i runs)
  show ?case
  proof (rule assms)
    fix i' runs'
    assume "i < length lines" "outer_step to_float lines i runs = Inr (i', runs')"
    then have "i < i' \<and> i' \<le> length lines" by (rule outer_step_cursor)
    then have "length lines - i' < length lines - i" by auto
    then show "P i' runs'" by (rule less)
  qed
qed

lemma outer_step_prefix:
  "never_row to_float h \<Longrightarrow> i < length pre \<Longrightarrow>
   outer_step to_float (pre @ h # rest) i runs = outer_step to_float pre i runs"
  by (simp add: outer_step_def Let_def nth_append inner_loop_prefix)

lemma outer_step_shift:
  "outer_step to_float (pre @ post) (length pre + j) runs =
   map_sum id (\<lambda>(i', rs). (length pre + i', rs)) (outer_step to_float post j runs)"
proof -
  have "inner_loop to_float (pre @ post) headers (length pre + j + 1) [] =
        map_sum id (\<lambda>(i', d). (length pre + i', d)) (inner_loop to_float post headers (j + 1) [])"
    for headers
    using inner_loop_shift [of to_float pre post headers "j + 1" "[]"] by (simp add: add.assoc)
  then show ?thesis
    by (auto simp: outer_step_def Let_def nth_append split: sum.splits)
qed

lemma outer_step_acc:
  "outer_step to_float lines i runs =
   map_sum id (\<lambda>(i', rs). (i', runs @ rs)) (outer_step to_float lines i [])"
  by (auto simp: outer_step_def Let_def split: sum.splits)

lemma parse_loop_prefix:
  assumes "never_row to_float h"
  shows "i \<le> length pre \<Longrightarrow>
    parse_loop to_float (pre @ h # rest) i runs =
      (case parse_loop to_float pre i runs of
         Inl e \<Rightarrow> Inl e
       | Inr rs \<Rightarrow> parse_loop to_float (pre @ h # rest) (length pre) rs)"
proof (induction i runs rule: parse_loop_induct [where lines = pre and to_float = to_float])
  case (step i runs)
  show ?case
  proof (cases "i < length pre")
    case False
    with step.prems have "i = length pre" by simp
    then show ?thesis by (simp add: parse_loop_done [of _ pre])
  next
    case lt: True
    then have lt': "i < length (pre @ h # rest)" by simp
    show ?thesis
    proof (cases "outer_step to_float pre i runs")
      case (Inl e)
      with lt assms show ?thesis
        by (simp add: parse_loop_step [OF lt] parse_loop_step [OF lt'] outer_step_prefix)
    next
      case (Inr r)
      obtain i' runs' where r: "r = (i', runs')" by (cases r)
      from lt Inr r have "i' \<le> length pre" using outer_step_cursor by blast
      with step.IH [OF lt Inr [unfolded r]]
      have "parse_loop to_float (pre @ h # rest) i' runs' =
            (case parse_loop to_float pre i' runs' of
               Inl e \<Rightarrow> Inl e
             | Inr rs \<Rightarrow> parse_loop to_float (pre @ h # rest) (length pre) rs)" .
      with lt Inr r assms show ?thesis
        by (simp add: parse_loop_step [OF lt] parse_loop_step [OF lt'] outer_step_prefix)
    qed
  qed
qed

lemma parse_loop_shift:
  "parse_loop to_float (pre @ post) (length pre + j) runs = parse_loop to_float post j runs"
proof (induction j runs rule: parse_loop_induct [where lines = post and to_float = to_float])
  case (step j runs)
  show ?case
  proof (cases "j < length post")
    case False
    then show ?thesis by (simp add: parse_loop_done)
  next
    case lt: True
    then have lt': "length pre + j < length (pre @ post)" by simp
    show ?thesis
    proof (cases "outer_step to_float post j runs")
      case (Inl e)
      then show ?thesis
        by (simp add: parse_loop_step [OF lt] parse_loop_step [OF lt'] outer_step_shift)
    next
      case (Inr r)
      obtain j' runs' where r: "r = (j', runs')" by (cases r)
      from step.IH [OF lt Inr [unfolded r]] Inr r show ?thesis
        by (simp add: parse_loop_step [OF lt] parse_loop_step [OF lt'] outer_step_shift)
    qed
  qed
qed

lemma parse_loop_acc:
  "parse_loop to_float lines i runs =
   map_sum id (\<lambda>rs. runs @ rs) (parse_loop to_float lines i [])"
proof -
  have "parse_loop to_float lines i (runs @ acc) =
        map_sum id (\<lambda>rs. runs @ rs) (parse_loop to_float lines i acc)" for acc
  proof (induction i acc rule: parse_loop_induct [where lines = lines and to_float = to_float])
    case (step i acc)
    show ?case
    proof (cases "i < length lines")
      case False
      then show ?thesis by (simp add: parse_loop_done)
    next
      case lt: True
      show ?thesis
      proof (cases "outer_step to_float lines i []")
        case (Inl e)
        then show ?thesis
          by (simp add: parse_loop_step [OF lt]
                outer_step_acc [of _ _ _ "runs @ acc"] outer_step_acc [of _ _ _ acc])
      next
        case (Inr r)
        obtain i' new where r: "r = (i', new)" by (cases r)
        have "outer_step to_float lines i acc = Inr (i', acc @ new)"
          using Inr r by (simp add: outer_step_acc [of _ _ _ acc])
        from step.IH [OF lt this] Inr r show ?thesis
          by (simp add: parse_loop_step [OF lt]
                outer_step_acc [of _ _ _ "runs @ acc"] outer_step_acc [of _ _ _ acc])
      qed
    qed
  qed
  from this [of "[]"] show ?thesis by simp
qed

lemma accepted_row:
  "\<not> blank d \<Longrightarrow> length (tokens d) = length headers \<Longrightarrow> map to_float (tokens d) = map Some row \<Longrightarrow>
   accepted to_float headers d \<and> floats to_float (tokens d) = Some row"
proof -
  assume nb: "\<not> blank d" and len: "length (tokens d) = length headers"
    and conv: "map to_float (tokens d) = map Some row"
  from conv have fl: "floats to_float (tokens d) = Some row" by (simp only: floats_map)
  from nb have "tokens d \<noteq> []" by (rule tokens_nonempty)
  with conv have "numeric_first to_float d"
    by (cases "tokens d"; cases row) (auto simp: numeric_first_def)
  with nb len fl show ?thesis by (simp add: accepted_def)
qed

text \<open>
  The first token of a header line starts with \<^verbatim>\<open>Step\<close>; so a conversion that rejects
  every such string, as \<^verbatim>\<open>float\<close> does, never takes a header line for a row.
\<close>

lemma split_acc_first:
  "cur \<noteq> [] \<or> (s \<noteq> [] \<and> \<not> isspace (hd s)) \<Longrightarrow>
   split_acc s cur \<noteq> [] \<and> hd (split_acc s cur) = cur @ takeWhile (\<lambda>c. \<not> isspace c) s"
  by (induction s arbitrary: cur) auto

lemma header_first_token:
  assumes "is_header h"
  shows "tokens h \<noteq> [] \<and> startswith (hd (tokens h)) ''Step''"
proof -
  from assms have pre: "take (length ''Step'') (str_strip h) = ''Step''"
    by (simp only: is_header_def startswith_def)
  then obtain rest where s: "str_strip h = ''Step'' @ rest"
    by (metis append_take_drop_id)
  have "\<not> isspace (hd (str_strip h))" by (simp add: s isspace_def)
  moreover have "str_strip h \<noteq> []" by (simp add: s)
  ultimately have "split_acc (str_strip h) [] \<noteq> [] \<and>
      hd (split_acc (str_strip h) []) = [] @ takeWhile (\<lambda>c. \<not> isspace c) (str_strip h)"
    by (intro split_acc_first) simp
  then show ?thesis
    by (simp add: tokens_def str_split_def s startswith_def isspace_def)
qed

lemma header_not_numeric:
  assumes "is_header h" and "\<forall>t. startswith t ''Step'' \<longrightarrow> to_float t = None"
  shows "\<not> numeric_first to_float h"
  using header_first_token [OF assms(1)] assms(2)
  by (cases "tokens h") (auto simp: numeric_first_def)

lemma blank_not_header: "blank b \<Longrightarrow> \<not> is_header b"
  by (simp add: blank_def is_header_def startswith_def)

lemma outer_step_skip: "\<not> is_header (lines ! i) \<Longrightarrow> outer_step to_float lines i runs = Inr (i + 1, runs)"
  by (simp add: outer_step_def is_header_def)

lemma outer_step_header:
  "is_header (lines ! i) \<Longrightarrow>
   outer_step to_float lines i runs =
     (case inner_loop to_float lines (tokens (lines ! i)) (i + 1) [] of
        Inl e \<Rightarrow> Inl e
      | Inr (i', data) \<Rightarrow>
          if data \<noteq> [] then Inr (i', runs @ [\<lparr>columns = tokens (lines ! i), rows = data\<rparr>])
          else Inr (i', runs))"
  unfolding outer_step_def is_header_def tokens_def Let_def by simp

lemma inner_loop_stop:
  "i \<ge> length lines \<or> \<not> accepted to_float headers (lines ! i) \<Longrightarrow>
   inner_loop to_float lines headers i data = Inr (i, data)"
  by (subst inner_loop_unfold) auto

lemma block_step:
  assumes header: "is_header h"
    and rws: "list_all2 (\<lambda>d row. accepted to_float (tokens h) d \<and> floats to_float (tokens d) = Some row) ds rws"
    and stop: "rest = [] \<or> \<not> accepted to_float (tokens h) (hd rest)"
  shows "outer_step to_float (pre @ h # ds @ rest) (length pre) runs =
           Inr (length pre + 1 + length ds,
                if ds \<noteq> [] then runs @ [\<lparr>columns = tokens h, rows = rws\<rparr>] else runs)"
proof -
  let ?lines = "pre @ h # ds @ rest"
  have eq: "?lines = (pre @ [h]) @ ds @ rest" by simp
  have "inner_loop to_float ?lines (tokens h) (length pre + 1) [] =
        inner_loop to_float ((pre @ [h]) @ ds @ rest) (tokens h) (length (pre @ [h])) []"
    by simp
  also have "\<dots> = inner_loop to_float ((pre @ [h]) @ ds @ rest) (tokens h)
                     (length (pre @ [h]) + length ds) ([] @ rws)"
    using rws by (rule inner_loop_rows)
  also have "\<dots> = Inr (length pre + 1 + length ds, rws)"
  proof -
    have "length (pre @ [h]) + length ds \<ge> length ((pre @ [h]) @ ds @ rest) \<or>
          \<not> accepted to_float (tokens h) (((pre @ [h]) @ ds @ rest) ! (length (pre @ [h]) + length ds))"
      using stop by (cases rest) (auto simp: nth_append)
    then show ?thesis
      by (subst inner_loop_stop) simp_all
  qed
  finally have inner: "inner_loop to_float ?lines (tokens h) (length pre + 1) [] =
                       Inr (length pre + 1 + length ds, rws)" .
  have len: "length ds = length rws" using rws by (rule list_all2_lengthD)
  have "?lines ! length pre = h" by (simp add: nth_append)
  with header inner len show ?thesis
    by (subst outer_step_header) auto
qed

lemma floats_None_iff: "floats to_float ps = None \<longleftrightarrow> (\<exists>t\<in>set ps. to_float t = None)"
  by (induction ps) (auto split: option.splits)

lemma inner_loop_data:
  "inner_loop to_float lines headers i data = Inr (i', data') \<Longrightarrow>
   \<exists>new. data' = data @ new \<and>
     list_all2 (\<lambda>l row. accepted to_float headers l \<and> floats to_float (tokens l) = Some row)
       (take (i' - i) (drop i lines)) new"
proof (induction "length lines - i" arbitrary: i data)
  case 0
  then have "\<not> i < length lines" by simp
  with "0.prems" show ?case by (subst (asm) inner_loop_unfold) auto
next
  case (Suc n)
  then have lt: "i < length lines" by simp
  show ?case
  proof (cases "accepted to_float headers (lines ! i)")
    case False
    with Suc.prems show ?thesis by (subst (asm) inner_loop_unfold) auto
  next
    case acc: True
    show ?thesis
    proof (cases "floats to_float (tokens (lines ! i))")
      case None
      with acc lt Suc.prems show ?thesis by (subst (asm) inner_loop_unfold) auto
    next
      case (Some row)
      with acc lt Suc.prems
      have rec: "inner_loop to_float lines headers (i + 1) (data @ [row]) = Inr (i', data')"
        by (subst (asm) inner_loop_unfold) auto
      from Suc.hyps(2) have "n = length lines - (i + 1)" by simp
      from Suc.hyps(1) [OF this rec] obtain new where
        new: "data' = (data @ [row]) @ new"
          "list_all2 (\<lambda>l row. accepted to_float headers l \<and> floats to_float (tokens l) = Some row)
             (take (i' - (i + 1)) (drop (i + 1) lines)) new"
        by blast
      from inner_loop_cursor [OF rec] have "i + 1 \<le> i'" by simp
      then have "i' - i = Suc (i' - (i + 1))" by simp
      then have "take (i' - i) (drop i lines) = lines ! i # take (i' - (i + 1)) (drop (i + 1) lines)"
        using lt by (simp add: Cons_nth_drop_Suc [symmetric])
      with new acc Some show ?thesis by (intro exI [of _ "row # new"]) simp
    qed
  qed
qed

lemma outer_step_emits:
  assumes "i < length lines" "outer_step to_float lines i runs = Inr (i', runs')"
  shows "(\<not> is_header (lines ! i) \<and> i' = i + 1 \<and> runs' = runs) \<or>
         (is_header (lines ! i) \<and>
          (\<exists>data. list_all2 (\<lambda>l row. accepted to_float (tokens (lines ! i)) l \<and>
                                      floats to_float (tokens l) = Some row)
                     (take (i' - (i + 1)) (drop (i + 1) lines)) data \<and>
                  runs' = (if data \<noteq> [] then runs @ [\<lparr>columns = tokens (lines ! i), rows = data\<rparr>]
                           else runs)))"
proof (cases "is_header (lines ! i)")
  case False
  with assms show ?thesis by (simp add: outer_step_skip)
next
  case True
  from assms(2) obtain data where
    inner: "inner_loop to_float lines (tokens (lines ! i)) (i + 1) [] = Inr (i', data)"
    and runs': "runs' = (if data \<noteq> [] then runs @ [\<lparr>columns = tokens (lines ! i), rows = data\<rparr>]
                         else runs)"
    by (auto simp: outer_step_header [OF True] split: sum.splits if_splits)
  from inner_loop_data [OF inner] runs' True show ?thesis by auto
qed

lemma outer_step_runs:
  assumes "i < length lines" "outer_step to_float lines i runs = Inr (i', runs')" "r \<in> set runs'"
  shows "r \<in> set runs \<or> emitted_from to_float lines r"
proof -
  from outer_step_emits [OF assms(1,2)] show ?thesis
  proof (elim disjE conjE exE)
    assume "runs' = runs"
    with assms(3) show ?thesis by simp
  next
    fix data
    assume h: "is_header (lines ! i)"
      and rows: "list_all2 (\<lambda>l row. accepted to_float (tokens (lines ! i)) l \<and>
                    floats to_float (tokens l) = Some row)
                   (take (i' - (i + 1)) (drop (i + 1) lines)) data"
      and runs': "runs' = (if data \<noteq> [] then runs @ [\<lparr>columns = tokens (lines ! i), rows = data\<rparr>]
                           else runs)"
    have len: "length row = length (tokens (lines ! i))" if "row \<in> set data" for row
    proof -
      from rows have "length (take (i' - (i + 1)) (drop (i + 1) lines)) = length data"
        by (rule list_all2_lengthD)
      from in_set_impl_in_set_zip2 [OF this that] obtain l where
        "(l, row) \<in> set (zip (take (i' - (i + 1)) (drop (i + 1) lines)) data)" .
      with rows have "accepted to_float (tokens (lines ! i)) l"
        "floats to_float (tokens l) = Some row"
        by (auto simp: list_all2_iff)
      then show ?thesis by (auto simp: accepted_def dest: floats_length)
    qed
    show ?thesis
    proof (cases "r \<in> set runs")
      case True
      then show ?thesis ..
    next
      case False
      with assms(3) runs' have r: "r = \<lparr>columns = tokens (lines ! i), rows = data\<rparr>" "data \<noteq> []"
        by (auto split: if_splits)
      with h len assms(1) have "emitted_from to_float lines r"
        by (auto simp: emitted_from_def)
      then show ?thesis ..
    qed
  qed
qed

lemma parse_loop_runs:
  "parse_loop to_float lines i runs = Inr rs \<Longrightarrow> r \<in> set rs \<Longrightarrow>
   r \<in> set runs \<or> emitted_from to_float lines r"
proof (induction i runs rule: parse_loop_induct [where lines = lines and to_float = to_float])
  case (step i runs)
  show ?case
  proof (cases "i < length lines")
    case False
    with step.prems show ?thesis by (simp add: parse_loop_done)
  next
    case lt: True
    with step.prems(1) obtain i' runs' where
      st: "outer_step to_float lines i runs = Inr (i', runs')"
      and rest: "parse_loop to_float lines i' runs' = Inr rs"
      by (auto simp: parse_loop_step split: sum.splits)
    from step.IH [OF lt st rest step.prems(2)] outer_step_runs [OF lt st]
    show ?thesis by blast
  qed
qed


lemma block_error:
  assumes header: "is_header h"
    and rws: "list_all2 (\<lambda>d row. accepted to_float (tokens h) d \<and> floats to_float (tokens d) = Some row) ds rws"
    and acc: "accepted to_float (tokens h) bad"
    and fl: "floats to_float (tokens bad) = None"
  shows "outer_step to_float (pre @ h # ds @ bad # post) (length pre) runs = Inl ValueError"
proof -
  let ?lines = "pre @ h # ds @ bad # post"
  have "inner_loop to_float ?lines (tokens h) (length pre + 1) [] =
        inner_loop to_float ((pre @ [h]) @ ds @ bad # post) (tokens h) (length (pre @ [h])) []"
    by simp
  also have "\<dots> = inner_loop to_float ((pre @ [h]) @ ds @ bad # post) (tokens h)
                     (length (pre @ [h]) + length ds) ([] @ rws)"
    using rws by (rule inner_loop_rows)
  also have "\<dots> = Inl ValueError"
    using acc fl by (subst inner_loop_unfold) (simp add: nth_append)
  finally have "inner_loop to_float ?lines (tokens h) (length pre + 1) [] = Inl ValueError" .
  moreover have "?lines ! length pre = h" by (simp add: nth_append)
  ultimately show ?thesis
    using header by (subst outer_step_header) auto
qed


lemma scan_fuel_enough:
  "length lines - i \<le> k \<Longrightarrow>
   scan_fuel k to_float lines i runs = Some (parse_loop to_float lines i runs)"
proof (induction k arbitrary: i runs)
  case 0
  then show ?case by (simp add: parse_loop_done)
next
  case (Suc k)
  show ?case
  proof (cases "i < length lines")
    case False
    then show ?thesis by (simp add: parse_loop_done)
  next
    case lt: True
    show ?thesis
    proof (cases "outer_step to_float lines i runs")
      case (Inl e)
      with lt show ?thesis by (simp add: parse_loop_step)
    next
      case (Inr r)
      obtain i' runs' where r: "r = (i', runs')" by (cases r)
      from outer_step_cursor [OF lt Inr [unfolded r]] Suc.prems
      have "length lines - i' \<le> k" by auto
      from Suc.IH [OF this] lt Inr r show ?thesis by (simp add: parse_loop_step)
    qed
  qed
qed

lemma outer_step_rows:
  assumes "i < length lines" "outer_step to_float lines i runs = Inr (i', runs')"
  shows "\<exists>new ls. runs' = runs @ new \<and> subseq ls (take (i' - i) (drop i lines)) \<and>
           list_all2 (\<lambda>l row. floats to_float (tokens l) = Some row) ls (concat (map rows new))"
proof -
  from outer_step_cursor [OF assms] have adv: "i < i'" "i' \<le> length lines" by auto
  from outer_step_emits [OF assms] show ?thesis
  proof (elim disjE conjE exE)
    assume "runs' = runs"
    then show ?thesis by (intro exI [of _ "[]"]) simp
  next
    fix data
    assume rows: "list_all2 (\<lambda>l row. accepted to_float (tokens (lines ! i)) l \<and>
                    floats to_float (tokens l) = Some row)
                   (take (i' - (i + 1)) (drop (i + 1) lines)) data"
      and runs': "runs' = (if data \<noteq> [] then runs @ [\<lparr>columns = tokens (lines ! i), rows = data\<rparr>]
                           else runs)"
    let ?ls = "take (i' - (i + 1)) (drop (i + 1) lines)"
    from adv have "i' - i = Suc (i' - (i + 1))" by simp
    then have "take (i' - i) (drop i lines) = lines ! i # ?ls"
      using assms(1) by (simp add: Cons_nth_drop_Suc [symmetric])
    moreover have "subseq ?ls (lines ! i # ?ls)"
      by (rule list_emb_Cons) (rule subseq_order.order_refl)
    ultimately have sub: "subseq ?ls (take (i' - i) (drop i lines))" by simp
    from rows have conv: "list_all2 (\<lambda>l row. floats to_float (tokens l) = Some row) ?ls data"
      by (rule list_all2_mono) simp
    show ?thesis
    proof (cases "data = []")
      case True
      with runs' show ?thesis by (intro exI [of _ "[]"]) simp
    next
      case False
      with runs' sub conv show ?thesis
        by (intro exI [of _ "[\<lparr>columns = tokens (lines ! i), rows = data\<rparr>]"] exI [of _ ?ls]) simp
    qed
  qed
qed

lemma parse_loop_rows:
  "parse_loop to_float lines i runs = Inr rs \<Longrightarrow>
   \<exists>new ls. rs = runs @ new \<and> subseq ls (drop i lines) \<and>
     list_all2 (\<lambda>l row. floats to_float (tokens l) = Some row) ls (concat (map rows new))"
proof (induction i runs rule: parse_loop_induct [where lines = lines and to_float = to_float])
  case (step i runs)
  show ?case
  proof (cases "i < length lines")
    case False
    with step.prems show ?thesis by (intro exI [of _ "[]"]) (simp add: parse_loop_done)
  next
    case lt: True
    with step.prems obtain i' runs' where
      st: "outer_step to_float lines i runs = Inr (i', runs')"
      and rest: "parse_loop to_float lines i' runs' = Inr rs"
      by (auto simp: parse_loop_step split: sum.splits)
    from outer_step_cursor [OF lt st] have adv: "i < i'" "i' \<le> length lines" by auto
    from outer_step_rows [OF lt st] obtain new1 ls1 where
      1: "runs' = runs @ new1" "subseq ls1 (take (i' - i) (drop i lines))"
         "list_all2 (\<lambda>l row. floats to_float (tokens l) = Some row) ls1 (concat (map rows new1))"
      by blast
    from step.IH [OF lt st rest] obtain new2 ls2 where
      2: "rs = runs' @ new2" "subseq ls2 (drop i' lines)"
         "list_all2 (\<lambda>l row. floats to_float (tokens l) = Some row) ls2 (concat (map rows new2))"
      by blast
    have "drop i lines = take (i' - i) (drop i lines) @ drop (i' - i) (drop i lines)"
      by (rule append_take_drop_id [symmetric])
    also have "drop (i' - i) (drop i lines) = drop i' lines"
      using adv by simp
    finally have split: "drop i lines = take (i' - i) (drop i lines) @ drop i' lines" .
    have "subseq (ls1 @ ls2) (take (i' - i) (drop i lines) @ drop i' lines)"
      using 1(2) 2(2) by (rule list_emb_append_mono)
    with split have "subseq (ls1 @ ls2) (drop i lines)" by simp
    moreover have "list_all2 (\<lambda>l row. floats to_float (tokens l) = Some row) (ls1 @ ls2)
                     (concat (map rows (new1 @ new2)))"
      using 1(3) 2(3) by (simp add: list_all2_appendI)
    moreover have "rs = runs @ (new1 @ new2)" using 1(1) 2(1) by simp
    ultimately show ?thesis by blast
  qed
qed

section \<open>Lemmas on the query engine\<close>

lemma col_index_nth:
  "distinct cols \<Longrightarrow> k < length cols \<Longrightarrow> col_index cols (cols ! k) = k"
proof (induction cols arbitrary: k)
  case Nil
  then show ?case by simp
next
  case (Cons c cs)
  show ?case
  proof (cases k)
    case 0
    then show ?thesis by (simp add: col_index_def)
  next
    case (Suc j)
    with Cons.prems have "cs ! j \<in> set cs" "c \<notin> set cs" by auto
    then have "c \<noteq> cs ! j" by auto
    with Cons.IH [of j] Cons.prems Suc show ?thesis by (simp add: col_index_def)
  qed
qed

lemma rows_x_filter:
  "rows (x_filter df a) =
     filter (\<lambda>row. (case arg_x_min a of None \<Rightarrow> True
                      | Some lo \<Rightarrow> lo \<le> row ! col_index (columns df) (arg_x a)) \<and>
                    (case arg_x_max a of None \<Rightarrow> True
                      | Some hi \<Rightarrow> row ! col_index (columns df) (arg_x a) \<le> hi))
            (rows df)"
  by (cases "arg_x_min a"; cases "arg_x_max a")
     (simp_all add: x_filter_def select_ge_def select_le_def conj_commute)

lemma columns_x_filter: "columns (x_filter df a) = columns df"
  by (cases "arg_x_min a"; cases "arg_x_max a")
     (simp_all add: x_filter_def select_ge_def select_le_def)

lemma run_query_selected:
  "selected runs a \<Longrightarrow>
   run_query runs a =
     listed runs a @
     (if arg_x a \<notin> set (columns (the_run runs a)) then
        [UnknownXColumn (arg_x a) (columns (the_run runs a))]
      else if df_empty (x_filter (the_run runs a) a) then [EmptyResult]
      else if \<not> truthy (arg_y a) \<and> \<not> truthy (arg_avg_cols a) then [NothingRequested]
      else report (the_run runs a) (x_filter (the_run runs a) a) a)"
  by (auto simp: selected_def run_query_def the_run_def listed_def Let_def truthy_def
           split: option.splits)

lemma run_query_not_selected:
  "\<not> selected runs a \<Longrightarrow>
   run_query runs a =
     (if runs = [] then [NoRunsFound]
      else if arg_list a \<and> arg_y a = None \<and> arg_avg_cols a = None then [listing runs]
      else listed runs a @ [OutOfRange (arg_run a) (length runs)])"
  by (auto simp: selected_def run_query_def listed_def Let_def)

lemma report_cases:
  "report df df_sel a =
     (if missing df (arg_y a) \<noteq> [] then [UnknownYColumns (missing df (arg_y a)) (columns df)]
      else
        (if missing df (arg_avg_cols a) \<noteq> [] then
           [UnknownAvgColumns (missing df (arg_avg_cols a)) (columns df)]
         else if truthy (arg_avg_cols a) then [averages df_sel a] else []) @
        (if truthy (arg_y a) then [plot df_sel a] else []))"
  by (auto simp: report_def missing_def Let_def truthy_def given_def split: option.splits)

section \<open>Claims on the segmenter\<close>

text \<open>
  Claim C1, as amended. Let the lines of the log be \<open>pre\<close>, a header line \<open>h\<close> whose first
  token is not a number (no literal that Python's \<^verbatim>\<open>float\<close> reads starts with
  \<^verbatim>\<open>Step\<close>; see \<open>header_not_numeric\<close>), then \<open>m \<ge> 1\<close> lines \<open>ds\<close>, each non-blank with as many tokens as the
  header and with every token converting, positionally, to the values of the matching
  row of \<open>rws\<close>, then a blank line \<open>b\<close>, then \<open>post\<close>. If the lines before and the lines
  after are segmented without an exception, the result is the runs of the lines before,
  then exactly one run with the header's tokens as columns and \<open>rws\<close> as rows, then the
  runs of the lines after.
\<close>

theorem block_yields_one_run:
  assumes lines: "readlines text = pre @ h # ds @ b # post"
    and header: "is_header h"
    and hfirst: "\<not> numeric_first to_float h"
    and ne: "ds \<noteq> []"
    and rws: "list_all2 (\<lambda>d row. \<not> blank d \<and> length (tokens d) = length (tokens h) \<and>
                               map to_float (tokens d) = map Some row) ds rws"
    and blank: "blank b"
    and pre: "parse_lines to_float pre = Inr rs_pre"
    and post: "parse_lines to_float post = Inr rs_post"
  shows "parse_lammps_log to_float text =
           Inr (rs_pre @ [\<lparr>columns = tokens h, rows = rws\<rparr>] @ rs_post)"
proof -
  let ?lines = "pre @ h # ds @ b # post"
  let ?run = "\<lparr>columns = tokens h, rows = rws\<rparr>"
  have never: "never_row to_float h" using hfirst by (simp add: never_row_def)
  have rws': "list_all2 (\<lambda>d row. accepted to_float (tokens h) d \<and>
                  floats to_float (tokens d) = Some row) ds rws"
    using rws by (rule list_all2_mono) (use accepted_row in blast)
  have "parse_loop to_float ?lines 0 [] = parse_loop to_float ?lines (length pre) rs_pre"
    using parse_loop_prefix [OF never, of 0 pre "ds @ b # post" "[]"] pre
    by (simp add: parse_lines_def)
  also have "\<dots> = parse_loop to_float ?lines (length pre + 1 + length ds) (rs_pre @ [?run])"
    using block_step [OF header rws', of "b # post" pre rs_pre] ne blank
    by (subst parse_loop_step) (simp_all add: accepted_def)
  also have "\<dots> = parse_loop to_float ?lines (length pre + 1 + length ds + 1) (rs_pre @ [?run])"
  proof -
    have "?lines ! (length pre + 1 + length ds) = b"
      by (simp add: nth_append)
    then show ?thesis
      using blank_not_header [OF blank]
      by (subst parse_loop_step) (simp_all add: outer_step_skip)
  qed
  also have "\<dots> = parse_loop to_float ((pre @ h # ds @ [b]) @ post)
                     (length (pre @ h # ds @ [b]) + 0) (rs_pre @ [?run])"
    by simp
  also have "\<dots> = parse_loop to_float post 0 (rs_pre @ [?run])"
    by (rule parse_loop_shift)
  also have "\<dots> = Inr ((rs_pre @ [?run]) @ rs_post)"
    using post by (subst parse_loop_acc) (simp add: parse_lines_def)
  finally show ?thesis
    by (simp add: parse_lammps_log_def parse_lines_def lines)
qed

text \<open>The theorem at the example of the specification, for its first block.\<close>

theorem block_yields_one_run_witness:
  "readlines example_log =
     [] @ ''Step Temp Press\<newline>'' # [''0 300.0 1.0\<newline>'', ''100 301.5 1.1\<newline>'', ''200 299.8 0.9\<newline>'']
        @ ''\<newline>'' # [''Step Temp Press\<newline>'', ''0 310.0 2.0\<newline>'', ''100 311.0 2.1\<newline>''] \<and>
   is_header ''Step Temp Press\<newline>'' \<and>
   \<not> numeric_first dec_float ''Step Temp Press\<newline>'' \<and>
   list_all2 (\<lambda>d row. \<not> blank d \<and> length (tokens d) = length (tokens ''Step Temp Press\<newline>'') \<and>
                       map dec_float (tokens d) = map Some row)
     [''0 300.0 1.0\<newline>'', ''100 301.5 1.1\<newline>'', ''200 299.8 0.9\<newline>'']
     [[0, 300, 1], [100, 301.5, 1.1], [200, 299.8, 0.9]] \<and>
   blank ''\<newline>'' \<and>
   parse_lines dec_float [] = Inr [] \<and>
   parse_lines dec_float [''Step Temp Press\<newline>'', ''0 310.0 2.0\<newline>'', ''100 311.0 2.1\<newline>''] =
     Inr [\<lparr>columns = [''Step'', ''Temp'', ''Press''], rows = [[0, 310, 2], [100, 311, 2.1]]\<rparr>] \<and>
   parse_lammps_log dec_float example_log =
     Inr ([] @ [\<lparr>columns = tokens ''Step Temp Press\<newline>'',
                  rows = [[0, 300, 1], [100, 301.5, 1.1], [200, 299.8, 0.9]]\<rparr>]
             @ [\<lparr>columns = [''Step'', ''Temp'', ''Press''], rows = [[0, 310, 2], [100, 311, 2.1]]\<rparr>])"
proof -
  let ?h = "''Step Temp Press\<newline>''"
  let ?ds = "[''0 300.0 1.0\<newline>'', ''100 301.5 1.1\<newline>'', ''200 299.8 0.9\<newline>'']"
  let ?post = "[''Step Temp Press\<newline>'', ''0 310.0 2.0\<newline>'', ''100 311.0 2.1\<newline>'']"
  let ?rws = "[[0, 300, 1], [100, 301.5, 1.1], [200, 299.8, 0.9 :: real]]"
  have lines: "readlines example_log = [] @ ?h # ?ds @ ''\<newline>'' # ?post"
    by (simp add: example_log_def readlines_def)
  have header: "is_header ?h"
    by (simp add: run_simps)
  have hfirst: "\<not> numeric_first dec_float ?h"
    by (simp add: run_simps)
  have ne: "?ds \<noteq> []"
    by simp
  have rws: "list_all2 (\<lambda>d row. \<not> blank d \<and> length (tokens d) = length (tokens ?h) \<and>
                 map dec_float (tokens d) = map Some row) ?ds ?rws"
    by (simp add: run_simps)
  have blank: "blank ''\<newline>''"
    by (simp add: run_simps)
  have pre: "parse_lines dec_float [] = Inr ([] :: real run list)"
    by (simp add: run_simps)
  have post: "parse_lines dec_float ?post =
      Inr [\<lparr>columns = [''Step'', ''Temp'', ''Press''], rows = [[0, 310, 2], [100, 311, 2.1]]\<rparr>]"
    by (simp add: run_simps)
  from block_yields_one_run [OF lines header hfirst ne rws blank pre post]
    lines header hfirst rws blank pre post
  show ?thesis by blast
qed

text \<open>
  Claim C1 as it was stated asks only for a numeric first token and the right number of
  tokens. The line \<^verbatim>\<open>1 abc\<close> under the header \<^verbatim>\<open>Step Temp\<close> has both, and the
  segmenter emits no run: it raises.
\<close>

theorem block_yields_one_run_counterexample:
  "readlines ''Step Temp\<newline>1 abc\<newline>\<newline>'' = [''Step Temp\<newline>'', ''1 abc\<newline>'', ''\<newline>''] \<and>
   is_header ''Step Temp\<newline>'' \<and>
   \<not> blank ''1 abc\<newline>'' \<and>
   numeric_first dec_float ''1 abc\<newline>'' \<and>
   length (tokens ''1 abc\<newline>'') = length (tokens ''Step Temp\<newline>'') \<and>
   blank ''\<newline>'' \<and>
   parse_lammps_log dec_float ''Step Temp\<newline>1 abc\<newline>\<newline>'' = Inl ValueError"
  by (simp add: run_simps)

text \<open>
  Claim C4. Every run the segmenter returns has at least one row, and every row of a
  run has exactly as many values as the run has columns. And a header line that is
  followed by no valid data line (the lines end there, or the next line is blank, has
  a first token that is not a number, or has another number of tokens than the header)
  yields no run: the runs of the whole log are the runs of the lines before the header
  followed by the runs of the lines after it. As in C1, the header's own first token
  is not a number.
\<close>

theorem runs_well_formed:
  "(parse_lines to_float lines = Inr runs \<longrightarrow>
      (\<forall>r\<in>set runs. rows r \<noteq> [] \<and> (\<forall>row\<in>set (rows r). length row = length (columns r)))) \<and>
   (is_header h \<and> \<not> numeric_first to_float h \<and>
      (post = [] \<or> \<not> accepted to_float (tokens h) (hd post)) \<longrightarrow>
      parse_lines to_float (pre @ h # post) =
        (case parse_lines to_float pre of
           Inl e \<Rightarrow> Inl e
         | Inr before \<Rightarrow> map_sum id (\<lambda>after. before @ after) (parse_lines to_float post)))"
proof (intro conjI impI)
  assume "parse_lines to_float lines = Inr runs"
  then show "\<forall>r\<in>set runs. rows r \<noteq> [] \<and> (\<forall>row\<in>set (rows r). length row = length (columns r))"
    using parse_loop_runs [of to_float lines 0 "[]" runs]
    by (auto simp: parse_lines_def emitted_from_def)
next
  assume a: "is_header h \<and> \<not> numeric_first to_float h \<and>
      (post = [] \<or> \<not> accepted to_float (tokens h) (hd post))"
  let ?lines = "pre @ h # post"
  have never: "never_row to_float h" using a by (simp add: never_row_def)
  have pre: "parse_loop to_float ?lines 0 [] =
      (case parse_loop to_float pre 0 [] of
         Inl e \<Rightarrow> Inl e
       | Inr rs \<Rightarrow> parse_loop to_float ?lines (length pre) rs)"
    using parse_loop_prefix [OF never, of 0 pre post "[]"] by simp
  have step: "parse_loop to_float ?lines (length pre) rs =
      map_sum id (\<lambda>after. rs @ after) (parse_loop to_float post 0 [])" for rs
  proof -
    have "outer_step to_float (pre @ h # [] @ post) (length pre) rs =
            Inr (length pre + 1 + length ([] :: string list), if ([] :: string list) \<noteq> [] then rs @ [\<lparr>columns = tokens h, rows = []\<rparr>] else rs)"
      using a by (intro block_step) auto
    then have "parse_loop to_float ?lines (length pre) rs =
               parse_loop to_float ?lines (length pre + 1) rs"
      by (subst parse_loop_step) simp_all
    also have "\<dots> = parse_loop to_float ((pre @ [h]) @ post) (length (pre @ [h]) + 0) rs"
      by simp
    also have "\<dots> = parse_loop to_float post 0 rs"
      by (rule parse_loop_shift)
    also have "\<dots> = map_sum id (\<lambda>after. rs @ after) (parse_loop to_float post 0 [])"
      by (rule parse_loop_acc)
    finally show ?thesis .
  qed
  show "parse_lines to_float (pre @ h # post) =
        (case parse_lines to_float pre of
           Inl e \<Rightarrow> Inl e
         | Inr before \<Rightarrow> map_sum id (\<lambda>after. before @ after) (parse_lines to_float post))"
    unfolding parse_lines_def pre by (simp add: step split: sum.splits)
qed

text \<open>
  The theorem at the example of the specification, and at a header followed by the
  line \<^verbatim>\<open>Loop time of 3\<close>.
\<close>

theorem runs_well_formed_witness:
  "parse_lines dec_float (readlines example_log) = Inr example_runs \<and>
   list_all (\<lambda>r. rows r \<noteq> [] \<and> list_all (\<lambda>row. length row = length (columns r)) (rows r))
     example_runs \<and>
   is_header ''Step Temp\<newline>'' \<and>
   \<not> numeric_first dec_float ''Step Temp\<newline>'' \<and>
   \<not> accepted dec_float (tokens ''Step Temp\<newline>'') (hd [''Loop time of 3\<newline>'', ''1 2\<newline>'']) \<and>
   parse_lines dec_float ([] @ ''Step Temp\<newline>'' # [''Loop time of 3\<newline>'', ''1 2\<newline>'']) = Inr []"
proof -
  let ?h = "''Step Temp\<newline>''"
  let ?post = "[''Loop time of 3\<newline>'', ''1 2\<newline>'']"
  have parse: "parse_lines dec_float (readlines example_log) = Inr example_runs"
    by (simp add: example_log_def example_runs_def run_simps)
  have header: "is_header ?h" by (simp add: run_simps)
  have hfirst: "\<not> numeric_first dec_float ?h" by (simp add: run_simps)
  have stop: "\<not> accepted dec_float (tokens ?h) (hd ?post)" by (simp add: run_simps)
  have pre: "parse_lines dec_float [] = Inr ([] :: real run list)" by (simp add: run_simps)
  have post: "parse_lines dec_float ?post = Inr ([] :: real run list)" by (simp add: run_simps)
  note inst = runs_well_formed [of dec_float "readlines example_log" example_runs ?h ?post "[]"]
  from inst parse
  have "\<forall>r\<in>set example_runs. rows r \<noteq> [] \<and> (\<forall>row\<in>set (rows r). length row = length (columns r))"
    by blast
  then have inv: "list_all (\<lambda>r. rows r \<noteq> [] \<and> list_all (\<lambda>row. length row = length (columns r)) (rows r))
     example_runs"
    by (simp add: list_all_iff)
  from inst header hfirst stop
  have "parse_lines dec_float ([] @ ?h # ?post) =
        (case parse_lines dec_float [] of
           Inl e \<Rightarrow> Inl e
         | Inr before \<Rightarrow> map_sum id (\<lambda>after. before @ after) (parse_lines dec_float ?post))"
    by blast
  then have "parse_lines dec_float ([] @ ?h # ?post) = Inr []"
    by (simp add: pre post)
  with parse inv header hfirst stop show ?thesis by blast
qed

text \<open>
  Claim C8. Let a block be reached (the lines before it are segmented without an
  exception) and let it have taken the rows \<open>ds\<close>. If the next line is accepted into the
  block (it is not blank, its first token is a number and it has as many tokens as the
  header) and one of its later tokens does not convert, then \<^verbatim>\<open>parse_lammps_log\<close>
  raises \<^verbatim>\<open>ValueError\<close>, whatever follows, and so does \<^verbatim>\<open>main\<close>: the exception is
  neither caught nor turned into a message, and the block is not merely ended.
\<close>

theorem conversion_error_propagates:
  assumes lines: "readlines text = pre @ h # ds @ bad # post"
    and header: "is_header h"
    and hfirst: "\<not> numeric_first to_float h"
    and rws: "list_all2 (\<lambda>d row. \<not> blank d \<and> length (tokens d) = length (tokens h) \<and>
                               map to_float (tokens d) = map Some row) ds rws"
    and acc: "accepted to_float (tokens h) bad"
    and tok: "t \<in> set (tl (tokens bad))" "to_float t = None"
    and pre: "parse_lines to_float pre = Inr rs_pre"
  shows "parse_lammps_log to_float text = Inl ValueError \<and> main to_float text a = Inl ValueError"
proof -
  let ?lines = "pre @ h # ds @ bad # post"
  have never: "never_row to_float h" using hfirst by (simp add: never_row_def)
  have rws': "list_all2 (\<lambda>d row. accepted to_float (tokens h) d \<and>
                  floats to_float (tokens d) = Some row) ds rws"
    using rws by (rule list_all2_mono) (use accepted_row in blast)
  from tok have "t \<in> set (tokens bad)" by (cases "tokens bad") auto
  with tok(2) have fl: "floats to_float (tokens bad) = None"
    by (auto simp: floats_None_iff)
  have "parse_loop to_float ?lines 0 [] = parse_loop to_float ?lines (length pre) rs_pre"
    using parse_loop_prefix [OF never, of 0 pre "ds @ bad # post" "[]"] pre
    by (simp add: parse_lines_def)
  also have "\<dots> = Inl ValueError"
    using block_error [OF header rws' acc fl, of pre post rs_pre]
    by (subst parse_loop_step) simp_all
  finally have "parse_lammps_log to_float text = Inl ValueError"
    by (simp add: parse_lammps_log_def parse_lines_def lines)
  then show ?thesis by (simp add: main_def)
qed

text \<open>
  The theorem at a block whose second data line is \<^verbatim>\<open>3 abc\<close>.
\<close>

theorem conversion_error_propagates_witness:
  "readlines ''Step Temp\<newline>1 2\<newline>3 abc\<newline>4 5\<newline>'' =
     [] @ ''Step Temp\<newline>'' # [''1 2\<newline>''] @ ''3 abc\<newline>'' # [''4 5\<newline>''] \<and>
   is_header ''Step Temp\<newline>'' \<and>
   \<not> numeric_first dec_float ''Step Temp\<newline>'' \<and>
   list_all2 (\<lambda>d row. \<not> blank d \<and> length (tokens d) = length (tokens ''Step Temp\<newline>'') \<and>
                       map dec_float (tokens d) = map Some row) [''1 2\<newline>''] [[1, 2]] \<and>
   accepted dec_float (tokens ''Step Temp\<newline>'') ''3 abc\<newline>'' \<and>
   ''abc'' \<in> set (tl (tokens ''3 abc\<newline>'')) \<and>
   dec_float ''abc'' = None \<and>
   parse_lines dec_float [] = Inr [] \<and>
   parse_lammps_log dec_float ''Step Temp\<newline>1 2\<newline>3 abc\<newline>4 5\<newline>'' = Inl ValueError \<and>
   main dec_float ''Step Temp\<newline>1 2\<newline>3 abc\<newline>4 5\<newline>'' example_args = Inl ValueError"
proof -
  let ?h = "''Step Temp\<newline>''"
  have lines: "readlines ''Step Temp\<newline>1 2\<newline>3 abc\<newline>4 5\<newline>'' =
     [] @ ?h # [''1 2\<newline>''] @ ''3 abc\<newline>'' # [''4 5\<newline>'']"
    by (simp add: readlines_def)
  have header: "is_header ?h" by (simp add: run_simps)
  have hfirst: "\<not> numeric_first dec_float ?h" by (simp add: run_simps)
  have rws: "list_all2 (\<lambda>d row. \<not> blank d \<and> length (tokens d) = length (tokens ?h) \<and>
                       map dec_float (tokens d) = map Some row) [''1 2\<newline>''] [[1, 2]]"
    by (simp add: run_simps)
  have acc: "accepted dec_float (tokens ?h) ''3 abc\<newline>''" by (simp add: run_simps)
  have tok: "''abc'' \<in> set (tl (tokens ''3 abc\<newline>''))" "dec_float ''abc'' = None"
    by (simp_all add: run_simps)
  have pre: "parse_lines dec_float [] = Inr ([] :: real run list)" by (simp add: run_simps)
  from conversion_error_propagates [OF lines header hfirst rws acc tok pre, of example_args]
    lines header hfirst rws acc tok pre
  show ?thesis by blast
qed




text \<open>
  Claim C10. The two loops are total functions (their termination is proved where they
  are defined). Every iteration of the outer loop moves the cursor strictly forward and
  never beyond the end of the lines, so that a budget of as many iterations as there
  are lines is enough for the scan to finish with the result of the segmenter. And
  each line gives rows to at most one run: the rows of all the runs returned, in
  order, are the conversions of a subsequence of the lines.
\<close>

theorem scan_terminates:
  "(i < length lines \<and> outer_step to_float lines i runs = Inr (i', runs') \<longrightarrow>
      i < i' \<and> i' \<le> length lines) \<and>
   scan_fuel (length lines) to_float lines 0 [] = Some (parse_lines to_float lines) \<and>
   (parse_lines to_float lines = Inr rs \<longrightarrow>
      (\<exists>ls. subseq ls lines \<and>
         list_all2 (\<lambda>l row. floats to_float (tokens l) = Some row) ls (concat (map rows rs))))"
proof (intro conjI impI)
  assume "i < length lines \<and> outer_step to_float lines i runs = Inr (i', runs')"
  then show "i < i'" "i' \<le> length lines" using outer_step_cursor by blast+
next
  show "scan_fuel (length lines) to_float lines 0 [] = Some (parse_lines to_float lines)"
    unfolding parse_lines_def by (rule scan_fuel_enough) simp
next
  assume "parse_lines to_float lines = Inr rs"
  from parse_loop_rows [OF this [unfolded parse_lines_def]]
  show "\<exists>ls. subseq ls lines \<and>
         list_all2 (\<lambda>l row. floats to_float (tokens l) = Some row) ls (concat (map rows rs))"
    by auto
qed

text \<open>
  The theorem at the example of the specification: the first iteration moves the
  cursor from the header to the blank line.
\<close>

theorem scan_terminates_witness:
  "0 < length (readlines example_log) \<and>
   outer_step dec_float (readlines example_log) 0 [] = Inr (4, [hd example_runs]) \<and>
   (0 :: nat) < 4 \<and> 4 \<le> length (readlines example_log) \<and>
   scan_fuel (length (readlines example_log)) dec_float (readlines example_log) 0 [] =
     Some (Inr example_runs) \<and>
   parse_lines dec_float (readlines example_log) = Inr example_runs \<and>
   (\<exists>ls. subseq ls (readlines example_log) \<and>
      list_all2 (\<lambda>l row. floats dec_float (tokens l) = Some row) ls (concat (map rows example_runs)))"
proof -
  let ?L = "readlines example_log"
  have len: "0 < length ?L" by (simp add: example_log_def readlines_def)
  have step: "outer_step dec_float ?L 0 [] = Inr (4, [hd example_runs])"
    by (simp add: example_log_def example_runs_def run_simps)
  have parse: "parse_lines dec_float ?L = Inr example_runs"
    by (simp add: example_log_def example_runs_def run_simps)
  note inst = scan_terminates [of 0 ?L dec_float "[]" 4 "[hd example_runs]" example_runs]
  from inst len step have 1: "(0 :: nat) < 4 \<and> 4 \<le> length ?L" by blast
  from inst have "scan_fuel (length ?L) dec_float ?L 0 [] = Some (parse_lines dec_float ?L)" by blast
  then have 2: "scan_fuel (length ?L) dec_float ?L 0 [] = Some (Inr example_runs)"
    by (simp only: parse)
  from inst parse have 3: "\<exists>ls. subseq ls ?L \<and>
      list_all2 (\<lambda>l row. floats dec_float (tokens l) = Some row) ls (concat (map rows example_runs))"
    by blast
  from len step 1 2 parse 3 show ?thesis by blast
qed

section \<open>Claims on the query engine\<close>

text \<open>
  Claim C2. On the end-to-end example of the specification the segmenter returns two
  runs, of 3 and of 2 rows, and \<^verbatim>\<open>main\<close>, asked for the average of \<^verbatim>\<open>Temp\<close> in run 1 over
  the steps 0 to 100, reports \<open>(300.0 + 301.5) / 2 = 300.75\<close>.
\<close>

theorem example_end_to_end:
  "map_sum id (map (\<lambda>r. length (rows r))) (parse_lammps_log dec_float example_log) = Inr [3, 2] \<and>
   main dec_float example_log
     \<lparr>arg_run = 1, arg_x = ''Step'', arg_y = None, arg_list = False,
      arg_x_min = Some 0, arg_x_max = Some 100, arg_avg_cols = Some [''Temp'']\<rparr> =
     Inr [Averages 0 100 [(''Temp'', (300.0 + 301.5) / 2)]] \<and>
   (300.0 + 301.5) / 2 = (300.75 :: real)"
proof -
  have parse: "parse_lammps_log dec_float example_log =
      Inr [\<lparr>columns = [''Step'', ''Temp'', ''Press''],
             rows = [[0, 300, 1], [100, 301.5, 1.1], [200, 299.8, 0.9]]\<rparr>,
           \<lparr>columns = [''Step'', ''Temp'', ''Press''],
             rows = [[0, 310, 2], [100, 311, 2.1]]\<rparr>]"
    by (simp add: example_log_def run_simps)
  show ?thesis
    unfolding main_def parse
    by (simp add: run_query_def x_filter_def select_ge_def select_le_def col_index_def
          df_empty_def truthy_def given_def report_def averages_def mean_def column_def)
qed

text \<open>
  Claim C3. Let the run have distinct column names and let \<open>k\<close> be the position of
  the x column in its header. The filtered view keeps exactly the rows whose value
  \<open>v\<close> at position \<open>k\<close> satisfies \<open>A \<le> v\<close> when the lower bound \<open>A\<close> is given and
  \<open>v \<le> B\<close> when the upper bound \<open>B\<close> is given, both ends included, in the order of
  the run; it keeps the columns, and its x series is made of the values at position
  \<open>k\<close>. A bound that is not given does not constrain: it is the same as a bound below
  (above) every x value of the run.
\<close>

theorem range_filter_exact:
  assumes cols: "distinct (columns df)"
    and k: "k < length (columns df)" "columns df ! k = arg_x a"
  shows "rows (x_filter df a) =
           filter (\<lambda>row. (case arg_x_min a of None \<Rightarrow> True | Some A \<Rightarrow> A \<le> row ! k) \<and>
                          (case arg_x_max a of None \<Rightarrow> True | Some B \<Rightarrow> row ! k \<le> B))
                  (rows df) \<and>
         columns (x_filter df a) = columns df \<and>
         (arg_x_min a = Some A \<and> arg_x_max a = Some B \<longrightarrow>
            rows (x_filter df a) = filter (\<lambda>row. A \<le> row ! k \<and> row ! k \<le> B) (rows df)) \<and>
         column (x_filter df a) (arg_x a) = map (\<lambda>row. row ! k) (rows (x_filter df a)) \<and>
         ((\<forall>row\<in>set (rows df). lo \<le> row ! k) \<longrightarrow>
            x_filter df (a\<lparr>arg_x_min := Some lo\<rparr>) = x_filter df (a\<lparr>arg_x_min := None\<rparr>)) \<and>
         ((\<forall>row\<in>set (rows df). row ! k \<le> hi) \<longrightarrow>
            x_filter df (a\<lparr>arg_x_max := Some hi\<rparr>) = x_filter df (a\<lparr>arg_x_max := None\<rparr>))"
proof -
  from col_index_nth [OF cols k(1)] k(2)
  have idx: "col_index (columns df) (arg_x a) = k" by simp
  have 1: "rows (x_filter df a) =
           filter (\<lambda>row. (case arg_x_min a of None \<Rightarrow> True | Some A \<Rightarrow> A \<le> row ! k) \<and>
                          (case arg_x_max a of None \<Rightarrow> True | Some B \<Rightarrow> row ! k \<le> B))
                  (rows df)"
    using rows_x_filter [of df a] unfolding idx .
  have 2: "columns (x_filter df a) = columns df" by (rule columns_x_filter)
  have 3: "rows (x_filter df a) = filter (\<lambda>row. A \<le> row ! k \<and> row ! k \<le> B) (rows df)"
    if "arg_x_min a = Some A \<and> arg_x_max a = Some B"
    using that by (simp add: 1)
  have 4: "column (x_filter df a) (arg_x a) = map (\<lambda>row. row ! k) (rows (x_filter df a))"
    by (simp add: column_def 2 idx)
  have 5: "x_filter df (a\<lparr>arg_x_min := Some lo\<rparr>) = x_filter df (a\<lparr>arg_x_min := None\<rparr>)"
    if low: "\<forall>row\<in>set (rows df). lo \<le> row ! k"
  proof -
    have "rows (x_filter df (a\<lparr>arg_x_min := Some lo\<rparr>)) = rows (x_filter df (a\<lparr>arg_x_min := None\<rparr>))"
      using low idx by (auto simp: rows_x_filter intro!: filter_cong split: option.splits)
    then show ?thesis by (auto intro: run.equality simp: columns_x_filter)
  qed
  have 6: "x_filter df (a\<lparr>arg_x_max := Some hi\<rparr>) = x_filter df (a\<lparr>arg_x_max := None\<rparr>)"
    if high: "\<forall>row\<in>set (rows df). row ! k \<le> hi"
  proof -
    have "rows (x_filter df (a\<lparr>arg_x_max := Some hi\<rparr>)) = rows (x_filter df (a\<lparr>arg_x_max := None\<rparr>))"
      using high idx by (auto simp: rows_x_filter intro!: filter_cong split: option.splits)
    then show ?thesis by (auto intro: run.equality simp: columns_x_filter)
  qed
  from 1 2 3 4 5 6 show ?thesis by blast
qed

text \<open>
  The theorem at the first run of the example, filtered on its second column \<^verbatim>\<open>Temp\<close>
  to the values 300 to 305.
\<close>

theorem range_filter_exact_witness:
  "distinct (columns (hd example_runs)) \<and>
   (1 :: nat) < length (columns (hd example_runs)) \<and>
   columns (hd example_runs) ! 1 = arg_x temp_args \<and>
   arg_x_min temp_args = Some 300 \<and> arg_x_max temp_args = Some 305 \<and>
   rows (x_filter (hd example_runs) temp_args) = [[0, 300, 1], [100, 301.5, 1.1]] \<and>
   columns (x_filter (hd example_runs) temp_args) = [''Step'', ''Temp'', ''Press''] \<and>
   column (x_filter (hd example_runs) temp_args) ''Temp'' = [300, 301.5] \<and>
   list_all (\<lambda>row. 0 \<le> row ! 1) (rows (hd example_runs)) \<and>
   x_filter (hd example_runs) (temp_args\<lparr>arg_x_min := Some 0\<rparr>) =
     x_filter (hd example_runs) (temp_args\<lparr>arg_x_min := None\<rparr>) \<and>
   list_all (\<lambda>row. row ! 1 \<le> 1000) (rows (hd example_runs)) \<and>
   x_filter (hd example_runs) (temp_args\<lparr>arg_x_max := Some 1000\<rparr>) =
     x_filter (hd example_runs) (temp_args\<lparr>arg_x_max := None\<rparr>)"
proof -
  let ?df = "hd example_runs"
  have d: "distinct (columns ?df)" by (simp add: example_runs_def)
  have k: "(1 :: nat) < length (columns ?df)" "columns ?df ! 1 = arg_x temp_args"
    by (simp_all add: example_runs_def temp_args_def)
  have b: "arg_x_min temp_args = Some 300 \<and> arg_x_max temp_args = Some 305"
    by (simp add: temp_args_def)
  have xs: "arg_x temp_args = ''Temp''" by (simp add: temp_args_def)
  have lo: "\<forall>row\<in>set (rows ?df). 0 \<le> row ! 1" by (simp add: example_runs_def)
  have hi: "\<forall>row\<in>set (rows ?df). row ! 1 \<le> 1000" by (simp add: example_runs_def)
  note inst = range_filter_exact [OF d k, of 300 305 0 1000]
  from inst b have "rows (x_filter ?df temp_args) =
      filter (\<lambda>row. 300 \<le> row ! 1 \<and> row ! 1 \<le> 305) (rows ?df)"
    by blast
  then have 1: "rows (x_filter ?df temp_args) = [[0, 300, 1], [100, 301.5, 1.1]]"
    by (simp add: example_runs_def)
  from inst have "columns (x_filter ?df temp_args) = columns ?df" by blast
  then have 2: "columns (x_filter ?df temp_args) = [''Step'', ''Temp'', ''Press'']"
    by (simp add: example_runs_def)
  from inst have "column (x_filter ?df temp_args) (arg_x temp_args) =
      map (\<lambda>row. row ! 1) (rows (x_filter ?df temp_args))"
    by blast
  then have 3: "column (x_filter ?df temp_args) ''Temp'' = [300, 301.5]"
    by (simp add: xs 1)
  from inst lo have 4: "x_filter ?df (temp_args\<lparr>arg_x_min := Some 0\<rparr>) =
     x_filter ?df (temp_args\<lparr>arg_x_min := None\<rparr>)"
    by blast
  from inst hi have 5: "x_filter ?df (temp_args\<lparr>arg_x_max := Some 1000\<rparr>) =
     x_filter ?df (temp_args\<lparr>arg_x_max := None\<rparr>)"
    by blast
  from lo have 6: "list_all (\<lambda>row. 0 \<le> row ! 1) (rows ?df)" by (simp add: list_all_iff)
  from hi have 7: "list_all (\<lambda>row. row ! 1 \<le> 1000) (rows ?df)" by (simp add: list_all_iff)
  from d k b 1 2 3 4 5 6 7 show ?thesis by blast
qed

text \<open>
  Claim C6, as amended. For runs with distinct column names, \<^verbatim>\<open>main\<close> reports the
  empty result exactly when a run is selected, it has the x column and the filter
  leaves no row, whether or not anything was requested; and it reports that nothing
  was requested exactly when a run is selected, it has the x column, the filtered view
  is not empty, and neither y columns nor averaging columns are given (absent or
  empty).
\<close>

theorem empty_result_and_nothing_requested:
  assumes "\<forall>df\<in>set runs. distinct (columns df)"
  shows "(EmptyResult \<in> set (run_query runs a) \<longleftrightarrow>
            selected runs a \<and> arg_x a \<in> set (columns (the_run runs a)) \<and>
            df_empty (x_filter (the_run runs a) a)) \<and>
         (NothingRequested \<in> set (run_query runs a) \<longleftrightarrow>
            selected runs a \<and> arg_x a \<in> set (columns (the_run runs a)) \<and>
            \<not> df_empty (x_filter (the_run runs a) a) \<and>
            \<not> truthy (arg_y a) \<and> \<not> truthy (arg_avg_cols a))"
proof (cases "selected runs a")
  case False
  then show ?thesis
    by (auto simp: run_query_not_selected listed_def listing_def)
next
  case True
  then show ?thesis
    by (auto simp: run_query_selected report_cases listed_def listing_def averages_def plot_def)
qed

text \<open>
  The theorem at the example: a lower bound of 1000 leaves no row; without averaging
  columns nothing is requested.
\<close>

theorem empty_result_and_nothing_requested_witness:
  "list_all (\<lambda>df. distinct (columns df)) example_runs \<and>
   EmptyResult \<in> set (run_query example_runs (example_args\<lparr>arg_x_min := Some 1000\<rparr>)) \<and>
   df_empty (x_filter (the_run example_runs example_args) (example_args\<lparr>arg_x_min := Some 1000\<rparr>)) \<and>
   NothingRequested \<in> set (run_query example_runs (example_args\<lparr>arg_avg_cols := None\<rparr>)) \<and>
   \<not> df_empty (x_filter (the_run example_runs example_args) (example_args\<lparr>arg_avg_cols := None\<rparr>))"
proof -
  let ?a = "example_args\<lparr>arg_x_min := Some 1000\<rparr>"
  let ?b = "example_args\<lparr>arg_avg_cols := None\<rparr>"
  have d: "\<forall>df\<in>set example_runs. distinct (columns df)" by (simp add: example_runs_def)
  have 1: "selected example_runs ?a \<and> arg_x ?a \<in> set (columns (the_run example_runs ?a)) \<and>
      df_empty (x_filter (the_run example_runs ?a) ?a)"
    by (simp add: query_simps)
  have 2: "selected example_runs ?b \<and> arg_x ?b \<in> set (columns (the_run example_runs ?b)) \<and>
      \<not> df_empty (x_filter (the_run example_runs ?b) ?b) \<and>
      \<not> truthy (arg_y ?b) \<and> \<not> truthy (arg_avg_cols ?b)"
    by (simp add: query_simps)
  have r: "the_run example_runs ?a = the_run example_runs example_args"
    "the_run example_runs ?b = the_run example_runs example_args"
    by (simp_all add: the_run_def example_args_def)
  from d have 0: "list_all (\<lambda>df. distinct (columns df)) example_runs" by (simp add: list_all_iff)
  from empty_result_and_nothing_requested [OF d, of ?a] 1
  have "EmptyResult \<in> set (run_query example_runs ?a)" by blast
  moreover from empty_result_and_nothing_requested [OF d, of ?b] 2
  have "NothingRequested \<in> set (run_query example_runs ?b)" by blast
  ultimately show ?thesis using 0 1 2 r by simp
qed

text \<open>
  Claim C6 as it was stated ties the empty result to a request for averages or a
  plot, and promises the nothing-requested message whenever none is requested. With
  no y column, no averaging column and a filter that leaves no row, \<^verbatim>\<open>main\<close> reports
  the empty result, and only that.
\<close>

theorem empty_result_counterexample:
  "run_query example_runs
     \<lparr>arg_run = 1, arg_x = ''Step'', arg_y = None, arg_list = False,
      arg_x_min = Some 1000, arg_x_max = None, arg_avg_cols = None\<rparr> = [EmptyResult]"
  by (simp add: query_simps)

text \<open>
  Claim C7, as amended. Once a run is selected, its column names being distinct: if
  it lacks the x column, \<^verbatim>\<open>main\<close> prints (after the listing, when asked for) only the
  message that names the column and lists the run's columns. If it has the x column
  and the filter leaves no row, \<^verbatim>\<open>main\<close> reports only the empty result, before the y
  and the averaging columns are looked at. If it has the x column and the filtered
  view is not empty, then a missing y column gives only the message that names the
  missing y columns and lists the run's columns, with no averages and no plot; and,
  the y columns being all there, a missing averaging column gives the message that
  names the missing averaging columns and lists the run's columns, and no averages.
\<close>

theorem unknown_column_reports:
  assumes sel: "selected runs a" and df: "df = the_run runs a"
    and cols: "distinct (columns df)"
  shows "(arg_x a \<notin> set (columns df) \<longrightarrow>
            run_query runs a = listed runs a @ [UnknownXColumn (arg_x a) (columns df)]) \<and>
         (arg_x a \<in> set (columns df) \<and> df_empty (x_filter df a) \<longrightarrow>
            run_query runs a = listed runs a @ [EmptyResult]) \<and>
         (arg_x a \<in> set (columns df) \<and> \<not> df_empty (x_filter df a) \<and> missing df (arg_y a) \<noteq> [] \<longrightarrow>
            run_query runs a = listed runs a @ [UnknownYColumns (missing df (arg_y a)) (columns df)]) \<and>
         (arg_x a \<in> set (columns df) \<and> \<not> df_empty (x_filter df a) \<and> missing df (arg_y a) = [] \<and>
            missing df (arg_avg_cols a) \<noteq> [] \<longrightarrow>
            (\<exists>rest. run_query runs a =
                      listed runs a @
                      UnknownAvgColumns (missing df (arg_avg_cols a)) (columns df) # rest \<and>
                    \<not> list_ex is_averages rest))"
proof (intro conjI impI)
  assume "arg_x a \<notin> set (columns df)"
  with sel df show "run_query runs a = listed runs a @ [UnknownXColumn (arg_x a) (columns df)]"
    by (simp add: run_query_selected)
next
  assume "arg_x a \<in> set (columns df) \<and> df_empty (x_filter df a)"
  with sel df show "run_query runs a = listed runs a @ [EmptyResult]"
    by (simp add: run_query_selected)
next
  assume a: "arg_x a \<in> set (columns df) \<and> \<not> df_empty (x_filter df a) \<and> missing df (arg_y a) \<noteq> []"
  then have "truthy (arg_y a)" by (auto simp: missing_def truthy_def given_def split: option.splits)
  with a sel df show "run_query runs a =
      listed runs a @ [UnknownYColumns (missing df (arg_y a)) (columns df)]"
    by (simp add: run_query_selected report_cases)
next
  assume a: "arg_x a \<in> set (columns df) \<and> \<not> df_empty (x_filter df a) \<and> missing df (arg_y a) = [] \<and>
            missing df (arg_avg_cols a) \<noteq> []"
  then have "truthy (arg_avg_cols a)"
    by (auto simp: missing_def truthy_def given_def split: option.splits)
  with a sel df have "run_query runs a =
      listed runs a @ UnknownAvgColumns (missing df (arg_avg_cols a)) (columns df) #
        (if truthy (arg_y a) then [plot (x_filter df a) a] else [])"
    by (simp add: run_query_selected report_cases)
  moreover have "\<not> list_ex is_averages (if truthy (arg_y a) then [plot (x_filter df a) a] else [])"
    by (simp add: is_averages_def plot_def)
  ultimately show "\<exists>rest. run_query runs a =
                      listed runs a @
                      UnknownAvgColumns (missing df (arg_avg_cols a)) (columns df) # rest \<and>
                    \<not> list_ex is_averages rest"
    by blast
qed

text \<open>
  The theorem at the example, asked in turn for the x column \<^verbatim>\<open>Time\<close>, for the y
  column \<^verbatim>\<open>Vol\<close> above step 1000, for the y column \<^verbatim>\<open>Vol\<close> and for the averaging
  column \<^verbatim>\<open>Vol\<close>.
\<close>

theorem unknown_column_reports_witness:
  "selected example_runs example_args \<and>
   distinct (columns (the_run example_runs example_args)) \<and>
   ''Time'' \<notin> set (columns (the_run example_runs example_args)) \<and>
   run_query example_runs (example_args\<lparr>arg_x := ''Time''\<rparr>) =
     [UnknownXColumn ''Time'' [''Step'', ''Temp'', ''Press'']] \<and>
   df_empty (x_filter (the_run example_runs example_args)
               (example_args\<lparr>arg_y := Some [''Vol''], arg_x_min := Some 1000\<rparr>)) \<and>
   run_query example_runs (example_args\<lparr>arg_y := Some [''Vol''], arg_x_min := Some 1000\<rparr>) =
     [EmptyResult] \<and>
   missing (the_run example_runs example_args) (Some [''Temp'', ''Vol'']) = [''Vol''] \<and>
   run_query example_runs (example_args\<lparr>arg_y := Some [''Temp'', ''Vol'']\<rparr>) =
     [UnknownYColumns [''Vol''] [''Step'', ''Temp'', ''Press'']] \<and>
   missing (the_run example_runs example_args) (Some [''Vol'', ''Temp'']) = [''Vol''] \<and>
   (\<exists>rest. run_query example_runs
              (example_args\<lparr>arg_y := Some [''Press''], arg_avg_cols := Some [''Vol'', ''Temp'']\<rparr>) =
              UnknownAvgColumns [''Vol''] [''Step'', ''Temp'', ''Press''] # rest \<and>
            \<not> list_ex is_averages rest)"
proof -
  let ?df = "the_run example_runs example_args"
  let ?a = "example_args\<lparr>arg_x := ''Time''\<rparr>"
  let ?b = "example_args\<lparr>arg_y := Some [''Temp'', ''Vol'']\<rparr>"
  let ?c = "example_args\<lparr>arg_y := Some [''Press''], arg_avg_cols := Some [''Vol'', ''Temp'']\<rparr>"
  let ?e = "example_args\<lparr>arg_y := Some [''Vol''], arg_x_min := Some 1000\<rparr>"
  have sel: "selected example_runs example_args" "selected example_runs ?a"
    "selected example_runs ?b" "selected example_runs ?c" "selected example_runs ?e"
    by (simp_all add: query_simps)
  have df: "?df = the_run example_runs ?a" "?df = the_run example_runs ?b"
    "?df = the_run example_runs ?c" "?df = the_run example_runs ?e"
    by (simp_all add: the_run_def example_args_def)
  have cols: "columns ?df = [''Step'', ''Temp'', ''Press'']" by (simp add: query_simps)
  have d: "distinct (columns ?df)" by (simp add: cols)
  have my: "missing ?df (Some [''Temp'', ''Vol'']) = [''Vol'']"
    and ma: "missing ?df (Some [''Vol'', ''Temp'']) = [''Vol'']"
    and mp: "missing ?df (Some [''Press'']) = []"
    by (simp_all add: query_simps)
  have args: "arg_x ?a = ''Time''" "arg_list ?a = False" "arg_y ?b = Some [''Temp'', ''Vol'']"
    "arg_list ?b = False" "arg_y ?c = Some [''Press'']"
    "arg_avg_cols ?c = Some [''Vol'', ''Temp'']" "arg_list ?c = False"
    "arg_x ?b = ''Step''" "arg_x ?c = ''Step''" "arg_x ?e = ''Step''" "arg_list ?e = False"
    by (simp_all add: example_args_def)
  have a: "arg_x ?a \<notin> set (columns ?df)" by (simp add: args cols)
  have b: "arg_x ?b \<in> set (columns ?df) \<and> \<not> df_empty (x_filter ?df ?b) \<and>
      missing ?df (arg_y ?b) \<noteq> []"
    by (simp add: args my cols) (simp add: query_simps)
  have c: "arg_x ?c \<in> set (columns ?df) \<and> \<not> df_empty (x_filter ?df ?c) \<and>
      missing ?df (arg_y ?c) = [] \<and> missing ?df (arg_avg_cols ?c) \<noteq> []"
    by (simp add: args mp ma cols) (simp add: query_simps)
  have e: "arg_x ?e \<in> set (columns ?df) \<and> df_empty (x_filter ?df ?e)"
    by (simp add: args cols) (simp add: query_simps)
  from unknown_column_reports [OF sel(2) df(1) d] a
  have "run_query example_runs ?a = listed example_runs ?a @ [UnknownXColumn (arg_x ?a) (columns ?df)]"
    by blast
  then have 1: "run_query example_runs ?a = [UnknownXColumn ''Time'' [''Step'', ''Temp'', ''Press'']]"
    by (simp add: cols args listed_def)
  from unknown_column_reports [OF sel(3) df(2) d] b
  have "run_query example_runs ?b =
      listed example_runs ?b @ [UnknownYColumns (missing ?df (arg_y ?b)) (columns ?df)]"
    by blast
  then have 2: "run_query example_runs ?b = [UnknownYColumns [''Vol''] [''Step'', ''Temp'', ''Press'']]"
    by (simp add: cols args my listed_def)
  from unknown_column_reports [OF sel(4) df(3) d] c
  have "\<exists>rest. run_query example_runs ?c =
      listed example_runs ?c @ UnknownAvgColumns (missing ?df (arg_avg_cols ?c)) (columns ?df) # rest \<and>
      \<not> list_ex is_averages rest"
    by blast
  then have 3: "\<exists>rest. run_query example_runs ?c =
      UnknownAvgColumns [''Vol''] [''Step'', ''Temp'', ''Press''] # rest \<and> \<not> list_ex is_averages rest"
    by (simp add: cols args ma listed_def)
  from unknown_column_reports [OF sel(5) df(4) d] e
  have "run_query example_runs ?e = listed example_runs ?e @ [EmptyResult]"
    by blast
  then have 4: "run_query example_runs ?e = [EmptyResult]"
    by (simp add: args listed_def)
  from a have 0: "''Time'' \<notin> set (columns ?df)" by (simp add: args)
  from e have 5: "df_empty (x_filter ?df ?e)" by simp
  from sel(1) d 0 1 5 4 my 2 ma 3 show ?thesis by blast
qed

text \<open>
  Claim C7 as it was stated promises the unknown-column message whenever a requested
  column is missing. The filter is applied, and the empty view reported, before the
  y columns and the averaging columns are looked at: with the missing y column
  \<^verbatim>\<open>Vol\<close> and a lower bound of 1000, \<^verbatim>\<open>main\<close> reports the empty result and names no
  column.
\<close>

theorem unknown_column_counterexample:
  "run_query example_runs
     \<lparr>arg_run = 1, arg_x = ''Step'', arg_y = Some [''Vol''], arg_list = False,
      arg_x_min = Some 1000, arg_x_max = None, arg_avg_cols = None\<rparr> = [EmptyResult] \<and>
   ''Vol'' \<notin> set (columns (example_runs ! 0))"
  by (simp add: query_simps)

text \<open>
  After the message on a missing averaging column \<^verbatim>\<open>main\<close> does not return: it goes
  on to the plot of the y columns (source lines 203 to 221).
\<close>

lemma missing_avg_column_still_plots:
  "run_query example_runs
     \<lparr>arg_run = 1, arg_x = ''Step'', arg_y = Some [''Temp''], arg_list = False,
      arg_x_min = None, arg_x_max = Some 100, arg_avg_cols = Some [''Vol'']\<rparr> =
   [UnknownAvgColumns [''Vol''] [''Step'', ''Temp'', ''Press''],
    Plot ''Step'' [0, 100] [(''Temp'', [300, 301.5])] True]"
  by (simp add: query_simps)

end
